theory Spec2Isabelle
  imports Main
begin

section \<open>Gather-subset resolution (iosxr\_facts.py and junos\_facts.py, function main)\<close>

text \<open>
  Both fact modules resolve the \<open>gather_subset\<close> argument with the same loop over two
  Python sets, \<open>runable_subsets\<close> and \<open>exclude_subsets\<close>. The sets are modelled as
  HOL sets of strings, the catalog's key set \<open>VALID_SUBSETS\<close> is the parameter \<open>V\<close>, and
  \<open>module.fail_json(msg=...)\<close>, which ends the process, is the \<open>Inl\<close> branch carrying
  the message. The two modules differ only in the message, so the message is the
  parameter \<open>msg\<close>, applied to the value of the variable \<open>subset\<close> at the call.
\<close>

definition startswith :: "string \<Rightarrow> string \<Rightarrow> bool" where
  "startswith s p = (take (length p) s = p)"

text \<open>
  The \<open>for subset in gather_subset\<close> loop. The pair is
  \<open>(runable_subsets, exclude_subsets)\<close>; \<open>drop 1\<close> is the slice \<open>subset[1:]\<close>; the loop
  variable \<open>subset\<close> is written \<open>sub\<close>.
\<close>

fun select_subsets ::
  "(string \<Rightarrow> string) \<Rightarrow> string set \<Rightarrow> string list \<Rightarrow> string set \<times> string set
     \<Rightarrow> string + (string set \<times> string set)" where
  "select_subsets msg V [] (runable, exclude) = Inr (runable, exclude)"
| "select_subsets msg V (sub # rest) (runable, exclude) =
     (if sub = ''all'' then select_subsets msg V rest (runable \<union> V, exclude)
      else if startswith sub ''!'' then
        (if drop 1 sub = ''all'' then select_subsets msg V rest (runable, exclude \<union> V)
         else if drop 1 sub \<notin> V then Inl (msg (drop 1 sub))
         else select_subsets msg V rest (runable, insert (drop 1 sub) exclude))
      else if sub \<notin> V then Inl (msg sub)
      else select_subsets msg V rest (insert sub runable, exclude))"

text \<open>
  The whole resolution: the loop from two empty sets, then
  \<open>if not runable_subsets: runable_subsets.update(VALID_SUBSETS)\<close>,
  \<open>difference_update(exclude_subsets)\<close> and \<open>add('default')\<close>.
\<close>

definition resolve_subsets ::
  "(string \<Rightarrow> string) \<Rightarrow> string set \<Rightarrow> string list \<Rightarrow> string + string set" where
  "resolve_subsets msg V gather_subset =
     (case select_subsets msg V gather_subset ({}, {}) of
        Inl m \<Rightarrow> Inl m
      | Inr (runable, exclude) \<Rightarrow>
          Inr (insert ''default'' ((if runable = {} then V else runable) - exclude)))"

subsection \<open>The vocabulary of the specification\<close>

text \<open>
  The specification speaks of tokens: a token is valid when it is all, !all, a valid
  subset name, or ! followed by a valid subset name. The set I collects the positively
  requested names (all stands for every valid name), the set E the negated names (!all
  stands for every valid name). These definitions follow the specification's words; the
  theorems below compare them with the loop above.
\<close>

definition valid_token :: "string set \<Rightarrow> string \<Rightarrow> bool" where
  "valid_token V t =
     (t = ''all'' \<or> t = ''!all'' \<or> t \<in> V \<or> (startswith t ''!'' \<and> drop 1 t \<in> V))"

definition included_by :: "string set \<Rightarrow> string \<Rightarrow> string set" where
  "included_by V t = (if t = ''all'' then V else if startswith t ''!'' then {} else {t})"

definition excluded_by :: "string set \<Rightarrow> string \<Rightarrow> string set" where
  "excluded_by V t =
     (if t = ''!all'' then V else if startswith t ''!'' then {drop 1 t} else {})"

definition spec_I :: "string set \<Rightarrow> string list \<Rightarrow> string set" where
  "spec_I V toks = (\<Union>t\<in>set toks. included_by V t)"

definition spec_E :: "string set \<Rightarrow> string list \<Rightarrow> string set" where
  "spec_E V toks = (\<Union>t\<in>set toks. excluded_by V t)"

text \<open>
  A token names an unknown subset when, with the negation marker stripped, it is neither
  the word all nor a name of the catalog.
\<close>

definition strip_negation :: "string \<Rightarrow> string" where
  "strip_negation t = (if startswith t ''!'' then drop 1 t else t)"

definition unknown_subset :: "string set \<Rightarrow> string \<Rightarrow> bool" where
  "unknown_subset V t =
     (t \<noteq> ''all'' \<and> strip_negation t \<noteq> ''all'' \<and> strip_negation t \<notin> V)"

section \<open>The two fact modules\<close>

subsection \<open>Exceptions and the ways an invocation ends\<close>

text \<open>
  Python exceptions are values. \<open>SystemExit\<close> is what \<open>module.fail_json\<close> and
  \<open>module.exit_json\<close> raise inside a collaborator; it is not a subclass of
  \<open>Exception\<close>, so the handler \<open>except Exception\<close> of iosxr\_facts lets it pass.
\<close>

datatype error =
    IndexError
  | KeyError
  | UnboundLocalError
  | OtherException string
  | SystemExit string

fun is_Exception :: "error \<Rightarrow> bool" where
  "is_Exception (SystemExit m) = False"
| "is_Exception e = True"

text \<open>
  A value of the \<open>facts\<close> dictionary is either the list stored under
  \<open>gather_subset\<close> or a value produced by an extractor.
\<close>

datatype 'v fact = SubsetList "string list" | FactValue 'v

text \<open>
  An invocation ends in \<open>module.exit_json(ansible_facts=..., warnings=...)\<close>, in
  \<open>module.exit_json(out=...)\<close> (iosxr\_facts only), in \<open>module.fail_json(msg=...)\<close>, or
  with an exception nobody catches.
\<close>

datatype ('v, 'j) outcome =
    ExitFacts "string \<rightharpoonup> 'v fact" "string list"
  | ExitOut 'j
  | FailJson string
  | Uncaught error

subsection \<open>Pieces shared by both modules\<close>


text \<open>
  \<open>instances.append(FACT_SUBSETS[key]())\<close> for every key of the RunSet, in the order in
  which Python iterates the set. The catalog \<open>FACT_SUBSETS\<close> is an association list; a
  missing key raises \<open>KeyError\<close>.
\<close>

fun instantiate :: "(string \<times> 'x) list \<Rightarrow> string list \<Rightarrow> error + 'x list" where
  "instantiate FACT_SUBSETS [] = Inr []"
| "instantiate FACT_SUBSETS (key # keys) =
     (case map_of FACT_SUBSETS key of
        None \<Rightarrow> Inl KeyError
      | Some x \<Rightarrow>
          (case instantiate FACT_SUBSETS keys of
             Inl e \<Rightarrow> Inl e
           | Inr xs \<Rightarrow> Inr (x # xs)))"

text \<open>
  The last loop of main: every key of \<open>facts\<close> is stored under
  \<open>'ansible_net_%s' % key\<close>.
\<close>

definition ansible_net :: "(string \<rightharpoonup> 'a) \<Rightarrow> (string \<rightharpoonup> 'a)" where
  "ansible_net facts =
     (\<lambda>key. if startswith key ''ansible_net_'' then facts (drop 12 key) else None)"

text \<open>
  An extractor's \<open>inst.facts\<close> holds extractor values; \<open>facts.update(inst.facts)\<close>
  overwrites the keys it brings.
\<close>

definition dict_update :: "(string \<rightharpoonup> 'v fact) \<Rightarrow> (string \<rightharpoonup> 'v) \<Rightarrow> (string \<rightharpoonup> 'v fact)" where
  "dict_update facts inst_facts = facts ++ (map_option FactValue \<circ> inst_facts)"

text \<open>\<open>', '.join(names)\<close>.\<close>

fun join :: "string \<Rightarrow> string list \<Rightarrow> string" where
  "join sep [] = []"
| "join sep [x] = x"
| "join sep (x # y # ys) = x @ sep @ join sep (y # ys)"

text \<open>
  Python iterates a set in an order the language does not fix. The order is the parameter
  \<open>order\<close> of both mains; it enumerates the subsets of a catalog when it lists every
  such set exactly, without repetition.
\<close>

definition enumerates :: "(string set \<Rightarrow> string list) \<Rightarrow> string set \<Rightarrow> bool" where
  "enumerates order V = (\<forall>s. s \<subseteq> V \<longrightarrow> set (order s) = s \<and> distinct (order s))"

text \<open>
  One order Python may use: the names of a set in the order of a fixed list. It serves as
  the concrete order wherever a main is run on an explicit input.
\<close>

definition listed_order :: "string list \<Rightarrow> string set \<Rightarrow> string list" where
  "listed_order names s = filter (\<lambda>key. key \<in> s) names"

subsection \<open>iosxr\_facts.py\<close>

text \<open>
  An extractor class of iosxr\_facts: the list its \<open>commands()\<close> returns, the keys its
  \<open>populate\<close> assigns in \<open>self.facts\<close> (all of them string literals in the source), and
  the regular-expression scraping, which is a parameter: from the dictionary of
  responses it gives the values of the keys, or raises.
\<close>

record 'v iosxr_extractor =
  commands :: "string list"
  fact_keys :: "string list"
  scrape :: "(string \<rightharpoonup> string) \<Rightarrow> error + (string \<rightharpoonup> 'v)"

definition populate :: "'v iosxr_extractor \<Rightarrow> (string \<rightharpoonup> string) \<Rightarrow> error + (string \<rightharpoonup> 'v)" where
  "populate inst results =
     (case scrape inst results of
        Inl e \<Rightarrow> Inl e
      | Inr values \<Rightarrow> Inr (values |` set (fact_keys inst)))"

text \<open>
  \<open>FACT_SUBSETS\<close> of iosxr\_facts.py (the entry optics is commented out in the source).
\<close>

definition iosxr_FACT_SUBSETS ::
  "(string \<Rightarrow> (string \<rightharpoonup> string) \<Rightarrow> error + (string \<rightharpoonup> 'v))
     \<Rightarrow> (string \<times> 'v iosxr_extractor) list" where
  "iosxr_FACT_SUBSETS scr =
    [(''default'',
        \<lparr>commands = [''show version brief'', ''admin show dsc''],
         fact_keys = [''version'', ''image'', ''hostname'', ''serial''],
         scrape = scr ''default''\<rparr>),
     (''hardware'',
        \<lparr>commands = [''dir /all'', ''show memory summary'',
                     ''show environment temperatures'', ''show processes cpu''],
         fact_keys = [''filesystems'', ''memtotal_mb'', ''memfree_mb'', ''temp'', ''CPU %''],
         scrape = scr ''hardware''\<rparr>),
     (''interfaces'',
        \<lparr>commands = [''show interfaces'', ''show ipv6 interface'',
                     ''show lldp'', ''show lldp neighbors detail''],
         fact_keys = [''all_ipv4_addresses'', ''all_ipv6_addresses'', ''interfaces'',
                      ''neighbors''],
         scrape = scr ''interfaces''\<rparr>),
     (''config'',
        \<lparr>commands = [''show running-config''],
         fact_keys = [''config''],
         scrape = scr ''config''\<rparr>),
     (''multicast'',
        \<lparr>commands = [''show mfib connections'', ''show mfib counter'',
                     ''show mrib route outgoing-interface''],
         fact_keys = [''mfib_connections'', ''mfib_counter'', ''mrib_route_outgoing_if''],
         scrape = scr ''multicast''\<rparr>),
     (''bgp'',
        \<lparr>commands = [''show bgp summary''],
         fact_keys = [''bgp_info'', ''bgp_process'', ''bgp_table''],
         scrape = scr ''bgp''\<rparr>),
     (''isis'',
        \<lparr>commands = [''show isis adjacency''],
         fact_keys = [''ISIS_adjacency''],
         scrape = scr ''isis''\<rparr>),
     (''routes'',
        \<lparr>commands = [''show route'', ''show route ipv6''],
         fact_keys = [''routing_table_IPv4'', ''routing_table_IPv6''],
         scrape = scr ''routes''\<rparr>),
     (''route_summary'',
        \<lparr>commands = [''show route summary''],
         fact_keys = [''routing_summary''],
         scrape = scr ''route_summary''\<rparr>),
     (''l2vpn'',
        \<lparr>commands = [''show l2vpn xconnect''],
         fact_keys = [''l2vpn''],
         scrape = scr ''l2vpn''\<rparr>)]"

definition VALID_SUBSETS :: "(string \<times> 'x) list \<Rightarrow> string set" where
  "VALID_SUBSETS FACT_SUBSETS = set (map fst FACT_SUBSETS)"

text \<open>
  The keys of \<open>FACT_SUBSETS\<close> in the order in which the source lists them; one order
  in which Python may iterate the subsets of the catalog.
\<close>

definition iosxr_names :: "string list" where
  "iosxr_names =
     [''default'', ''hardware'', ''interfaces'', ''config'', ''multicast'', ''bgp'', ''isis'',
      ''routes'', ''route_summary'', ''l2vpn'']"


definition iosxr_msg :: "string \<Rightarrow> string" where
  "iosxr_msg sub = ''Bad subset''"

text \<open>
  \<open>dict(zip(commands, responses))\<close>: the pairs up to the shorter list, a later pair
  overwriting an earlier one with the same command.
\<close>

definition dict_zip :: "string list \<Rightarrow> string list \<Rightarrow> (string \<rightharpoonup> string)" where
  "dict_zip cmds responses = map_of (rev (zip cmds responses))"

text \<open>
  The state of the \<open>try\<close> block: the dictionary \<open>facts\<close>, the local variable
  \<open>results\<close> (unbound until its first assignment), and the command lists handed to
  \<open>run_commands\<close> so far.
\<close>

record 'v iosxr_state =
  facts :: "string \<rightharpoonup> 'v fact"
  results :: "(string \<rightharpoonup> string) option"
  issued :: "string list list"

text \<open>
  The body of the \<open>try\<close>: for every instance, \<open>run_commands\<close>, \<open>dict(zip(...))\<close>,
  \<open>populate\<close>, \<open>facts.update\<close>. The first exception stops the loop and is returned
  with the state it left.
\<close>

fun iosxr_collect ::
  "(string list \<Rightarrow> error + string list) \<Rightarrow> 'v iosxr_extractor list \<Rightarrow> 'v iosxr_state
     \<Rightarrow> (error \<times> 'v iosxr_state) + 'v iosxr_state" where
  "iosxr_collect run_commands [] st = Inr st"
| "iosxr_collect run_commands (inst # insts) st =
     (case run_commands (commands inst) of
        Inl e \<Rightarrow> Inl (e, st\<lparr>issued := issued st @ [commands inst]\<rparr>)
      | Inr responses \<Rightarrow>
          (case populate inst (dict_zip (commands inst) responses) of
             Inl e \<Rightarrow>
               Inl (e, st\<lparr>results := Some (dict_zip (commands inst) responses),
                          issued := issued st @ [commands inst]\<rparr>)
           | Inr inst_facts \<Rightarrow>
               iosxr_collect run_commands insts
                 (st\<lparr>facts := dict_update (facts st) inst_facts,
                     results := Some (dict_zip (commands inst) responses),
                     issued := issued st @ [commands inst]\<rparr>)))"

text \<open>
  The handler \<open>except Exception: module.exit_json(out=module.from_json(results))\<close>.
  \<open>from_json\<close> belongs to the framework and is a parameter.
\<close>

definition iosxr_handler ::
  "((string \<rightharpoonup> string) \<Rightarrow> error + 'j) \<Rightarrow> error \<Rightarrow> 'v iosxr_state \<Rightarrow> ('v, 'j) outcome" where
  "iosxr_handler from_json e st =
     (if is_Exception e then
        (case results st of
           None \<Rightarrow> Uncaught UnboundLocalError
         | Some res \<Rightarrow>
             (case from_json res of
                Inl e' \<Rightarrow> Uncaught e'
              | Inr j \<Rightarrow> ExitOut j))
      else Uncaught e)"

text \<open>
  main of iosxr\_facts.py from the resolution on. The result is the list of command
  lists sent to the device and the way the invocation ended.
\<close>

definition iosxr_main ::
  "(string set \<Rightarrow> string list) \<Rightarrow> (string list \<Rightarrow> error + string list)
     \<Rightarrow> ((string \<rightharpoonup> string) \<Rightarrow> error + 'j) \<Rightarrow> (string \<times> 'v iosxr_extractor) list
     \<Rightarrow> string list \<Rightarrow> string list \<Rightarrow> string list list \<times> ('v, 'j) outcome" where
  "iosxr_main order run_commands from_json FACT_SUBSETS warnings gather_subset =
     (case resolve_subsets iosxr_msg (VALID_SUBSETS FACT_SUBSETS) gather_subset of
        Inl m \<Rightarrow> ([], FailJson m)
      | Inr runable_subsets \<Rightarrow>
          (case instantiate FACT_SUBSETS (order runable_subsets) of
             Inl e \<Rightarrow> ([], Uncaught e)
           | Inr instances \<Rightarrow>
               (case iosxr_collect run_commands instances
                       \<lparr>facts = [''gather_subset'' \<mapsto> SubsetList (order runable_subsets)],
                        results = None, issued = []\<rparr> of
                  Inl (e, st) \<Rightarrow> (issued st, iosxr_handler from_json e st)
                | Inr st \<Rightarrow> (issued st, ExitFacts (ansible_net (facts st)) warnings))))"

subsection \<open>junos\_facts.py\<close>

text \<open>
  An extractor class of junos\_facts: \<open>populate()\<close> takes no argument and talks to the
  device itself, so its outcome is a parameter; the keys it assigns in \<open>self.facts\<close>
  are string literals in the source.
\<close>

record 'v junos_extractor =
  junos_fact_keys :: "string list"
  rpc_reply :: "error + (string \<rightharpoonup> 'v)"

definition junos_populate :: "'v junos_extractor \<Rightarrow> error + (string \<rightharpoonup> 'v)" where
  "junos_populate inst =
     (case rpc_reply inst of
        Inl e \<Rightarrow> Inl e
      | Inr values \<Rightarrow> Inr (values |` set (junos_fact_keys inst)))"

definition junos_FACT_SUBSETS ::
  "(string \<Rightarrow> error + (string \<rightharpoonup> 'v)) \<Rightarrow> (string \<times> 'v junos_extractor) list" where
  "junos_FACT_SUBSETS rpc =
    [(''default'',
        \<lparr>junos_fact_keys = [''hostname'', ''version'', ''model'', ''serialnum''],
         rpc_reply = rpc ''default''\<rparr>),
     (''hardware'',
        \<lparr>junos_fact_keys = [''memfree_mb'', ''memtotal_mb'', ''filesystems''],
         rpc_reply = rpc ''hardware''\<rparr>),
     (''config'', \<lparr>junos_fact_keys = [''config''], rpc_reply = rpc ''config''\<rparr>),
     (''interfaces'', \<lparr>junos_fact_keys = [''interfaces''], rpc_reply = rpc ''interfaces''\<rparr>),
     (''interfaces_ext'',
        \<lparr>junos_fact_keys = [''interfaces_ext''], rpc_reply = rpc ''interfaces_ext''\<rparr>),
     (''optics'', \<lparr>junos_fact_keys = [''optics''], rpc_reply = rpc ''optics''\<rparr>),
     (''temperatures'',
        \<lparr>junos_fact_keys = [''temperature'', ''fans''], rpc_reply = rpc ''temperatures''\<rparr>),
     (''bgp_summary'', \<lparr>junos_fact_keys = [''bgp_summary''], rpc_reply = rpc ''bgp_summary''\<rparr>),
     (''bgp_peers'', \<lparr>junos_fact_keys = [''bgp_neighbors''], rpc_reply = rpc ''bgp_peers''\<rparr>),
     (''snapshots'', \<lparr>junos_fact_keys = [''snapshots''], rpc_reply = rpc ''snapshots''\<rparr>),
     (''route_summary'',
        \<lparr>junos_fact_keys = [''route_summary''], rpc_reply = rpc ''route_summary''\<rparr>),
     (''routes'', \<lparr>junos_fact_keys = [''routes''], rpc_reply = rpc ''routes''\<rparr>),
     (''isis_overview'',
        \<lparr>junos_fact_keys = [''isis_overview''], rpc_reply = rpc ''isis_overview''\<rparr>),
     (''route_engine'',
        \<lparr>junos_fact_keys = [''route-engine''], rpc_reply = rpc ''route_engine''\<rparr>),
     (''l2vpn'', \<lparr>junos_fact_keys = [''l2vpn''], rpc_reply = rpc ''l2vpn''\<rparr>)]"

text \<open>
  The keys of \<open>FACT_SUBSETS\<close> in the order in which the source lists them; one order
  in which Python may iterate the subsets of the catalog.
\<close>

definition junos_names :: "string list" where
  "junos_names =
     [''default'', ''hardware'', ''config'', ''interfaces'', ''interfaces_ext'', ''optics'',
      ''temperatures'', ''bgp_summary'', ''bgp_peers'', ''snapshots'', ''route_summary'',
      ''routes'', ''isis_overview'', ''route_engine'', ''l2vpn'']"


text \<open>
  \<open>'Subset must be one of [%s], got %s' % (', '.join(VALID_SUBSETS), subset)\<close>.
\<close>

definition junos_msg :: "(string set \<Rightarrow> string list) \<Rightarrow> string set \<Rightarrow> string \<Rightarrow> string" where
  "junos_msg order V sub =
     ''Subset must be one of ['' @ join '', '' (order V) @ ''], got '' @ sub"

text \<open>
  \<open>for inst in instances: inst.populate(); facts.update(inst.facts)\<close>, with no handler.
  The dictionary \<open>facts\<close> is written \<open>fs\<close>; the number counts the populate calls
  started.
\<close>

fun junos_collect ::
  "'v junos_extractor list \<Rightarrow> (string \<rightharpoonup> 'v fact) \<times> nat
     \<Rightarrow> (error \<times> nat) + ((string \<rightharpoonup> 'v fact) \<times> nat)" where
  "junos_collect [] (fs, n) = Inr (fs, n)"
| "junos_collect (inst # insts) (fs, n) =
     (case junos_populate inst of
        Inl e \<Rightarrow> Inl (e, Suc n)
      | Inr inst_facts \<Rightarrow> junos_collect insts (dict_update fs inst_facts, Suc n))"

text \<open>
  main of junos\_facts.py from the resolution on. The result is the number of populate
  calls started and the way the invocation ended.
\<close>

definition junos_main ::
  "(string set \<Rightarrow> string list) \<Rightarrow> (string \<times> 'v junos_extractor) list
     \<Rightarrow> string list \<Rightarrow> string list \<Rightarrow> nat \<times> ('v, 'j) outcome" where
  "junos_main order FACT_SUBSETS warnings gather_subset =
     (case resolve_subsets (junos_msg order (VALID_SUBSETS FACT_SUBSETS))
             (VALID_SUBSETS FACT_SUBSETS) gather_subset of
        Inl m \<Rightarrow> (0, FailJson m)
      | Inr runable_subsets \<Rightarrow>
          (case instantiate FACT_SUBSETS (order runable_subsets) of
             Inl e \<Rightarrow> (0, Uncaught e)
           | Inr instances \<Rightarrow>
               (case junos_collect instances
                       ([''gather_subset'' \<mapsto> SubsetList (order runable_subsets)], 0) of
                  Inl (e, n) \<Rightarrow> (n, Uncaught e)
                | Inr (fs, n) \<Rightarrow> (n, ExitFacts (ansible_net fs) warnings))))"

section \<open>parse\_snmp\_sysdescr.py\<close>

subsection \<open>The Python string and container operations decode\_os uses\<close>

text \<open>
  A description is a Python 3 string; its characters are the code points below 256, the
  values of the type \<open>char\<close>. \<open>sysdescr.split(',')\<close> cuts at every comma and keeps
  empty fields, so it never returns the empty list.
\<close>

fun split_on :: "char \<Rightarrow> string \<Rightarrow> string list" where
  "split_on sep [] = [[]]"
| "split_on sep (c # cs) =
     (if c = sep then [] # split_on sep cs
      else (case split_on sep cs of
              [] \<Rightarrow> [[c]]
            | fld # rest \<Rightarrow> (c # fld) # rest))"

text \<open>
  \<open>string.split()\<close> with no argument cuts at runs of whitespace and returns the words
  between them, none of them empty. Below 256 the whitespace characters of a Python 3
  string are the space, the controls 0x09 to 0x0D (tab, line feed, vertical tab, form
  feed, carriage return) and 0x1C to 0x1F (the four separators), 0x85 (next line) and
  0xA0 (no-break space).
\<close>

definition isspace :: "char \<Rightarrow> bool" where
  "isspace c =
     (c \<in> {CHR '' '', CHR 0x09, CHR 0x0A, CHR 0x0B, CHR 0x0C, CHR 0x0D,
            CHR 0x1C, CHR 0x1D, CHR 0x1E, CHR 0x1F, CHR 0x85, CHR 0xA0})"

fun split_ws :: "string \<Rightarrow> string list" where
  "split_ws [] = []"
| "split_ws (c # cs) =
     (if isspace c then split_ws cs
      else if cs = [] \<or> isspace (hd cs) then [c] # split_ws cs
      else (case split_ws cs of
              [] \<Rightarrow> [[c]]
            | word # ws \<Rightarrow> (c # word) # ws))"

text \<open>
  \<open>str.lower()\<close>. Below 256 the characters it changes are the letters A to Z and the
  letters 0xC0 to 0xDE other than the multiplication sign 0xD7; each goes to the
  character 0x20 above it.
\<close>

definition upper_letters :: "char list" where
  "upper_letters =
     ''ABCDEFGHIJKLMNOPQRSTUVWXYZ'' @
     [CHR 0xC0, CHR 0xC1, CHR 0xC2, CHR 0xC3, CHR 0xC4, CHR 0xC5, CHR 0xC6, CHR 0xC7,
      CHR 0xC8, CHR 0xC9, CHR 0xCA, CHR 0xCB, CHR 0xCC, CHR 0xCD, CHR 0xCE, CHR 0xCF,
      CHR 0xD0, CHR 0xD1, CHR 0xD2, CHR 0xD3, CHR 0xD4, CHR 0xD5, CHR 0xD6,
      CHR 0xD8, CHR 0xD9, CHR 0xDA, CHR 0xDB, CHR 0xDC, CHR 0xDD, CHR 0xDE]"

definition lower_letters :: "char list" where
  "lower_letters =
     ''abcdefghijklmnopqrstuvwxyz'' @
     [CHR 0xE0, CHR 0xE1, CHR 0xE2, CHR 0xE3, CHR 0xE4, CHR 0xE5, CHR 0xE6, CHR 0xE7,
      CHR 0xE8, CHR 0xE9, CHR 0xEA, CHR 0xEB, CHR 0xEC, CHR 0xED, CHR 0xEE, CHR 0xEF,
      CHR 0xF0, CHR 0xF1, CHR 0xF2, CHR 0xF3, CHR 0xF4, CHR 0xF5, CHR 0xF6,
      CHR 0xF8, CHR 0xF9, CHR 0xFA, CHR 0xFB, CHR 0xFC, CHR 0xFD, CHR 0xFE]"

definition lower_char :: "char \<Rightarrow> char" where
  "lower_char c =
     (case map_of (zip upper_letters lower_letters) c of
        None \<Rightarrow> c
      | Some l \<Rightarrow> l)"

definition lower :: "string \<Rightarrow> string" where
  "lower s = map lower_char s"

text \<open>
  \<open>re.search('version', string, re.IGNORECASE)\<close>: the pattern has no operators, so the
  search succeeds when \<open>version\<close> occurs in the string, letter case ignored. Below 256
  the only characters that match a letter of the pattern are the letter and its capital,
  which is what looking for the pattern in the lowered string tests.
\<close>

fun occurs_in :: "string \<Rightarrow> string \<Rightarrow> bool" where
  "occurs_in pat [] = (pat = [])"
| "occurs_in pat (c # cs) = (startswith (c # cs) pat \<or> occurs_in pat cs)"

definition search_version :: "string \<Rightarrow> bool" where
  "search_version s = occurs_in ''version'' (lower s)"

text \<open>
  A failing step stops the function: \<open>and_then\<close> passes the value of a step that did not
  raise to the rest.
\<close>

definition and_then :: "error + 'a \<Rightarrow> ('a \<Rightarrow> error + 'b) \<Rightarrow> error + 'b" where
  "and_then r f = (case r of Inl e \<Rightarrow> Inl e | Inr x \<Rightarrow> f x)"

text \<open>
  \<open>tokens\<close> is a dictionary with integer keys, so \<open>tokens[i]\<close> raises \<open>KeyError\<close>
  for a missing key; its values are lists, so \<open>tokens[i][j]\<close> raises \<open>IndexError\<close>
  when the list is too short.
\<close>

definition getitem :: "(nat \<rightharpoonup> 'a) \<Rightarrow> nat \<Rightarrow> error + 'a" where
  "getitem d k = (case d k of None \<Rightarrow> Inl KeyError | Some v \<Rightarrow> Inr v)"

definition item :: "'a list \<Rightarrow> nat \<Rightarrow> error + 'a" where
  "item xs j = (if j < length xs then Inr (xs ! j) else Inl IndexError)"

definition tokens_at :: "(nat \<rightharpoonup> string list) \<Rightarrow> nat \<Rightarrow> nat \<Rightarrow> error + string" where
  "tokens_at tokens i j = and_then (getitem tokens i) (\<lambda>words. item words j)"

subsection \<open>decode\_os\<close>

text \<open>
  The first loop: \<open>tokens[i] = string.split()\<close> for every field, \<open>i\<close> counting from 0.
\<close>

fun tokenize :: "nat \<Rightarrow> string list \<Rightarrow> (nat \<rightharpoonup> string list) \<Rightarrow> (nat \<rightharpoonup> string list)" where
  "tokenize i [] tokens = tokens"
| "tokenize i (s # desc) tokens = tokenize (i + 1) desc (tokens(i \<mapsto> split_ws s))"

text \<open>
  The Cisco branch's loop: the first field in which \<open>version\<close> occurs gives
  \<open>os_version = tokens[i][1]\<close> and ends the loop.
\<close>

fun find_version ::
  "nat \<Rightarrow> string list \<Rightarrow> (nat \<rightharpoonup> string list) \<Rightarrow> string \<Rightarrow> error + string" where
  "find_version i [] tokens os_version = Inr os_version"
| "find_version i (s # desc) tokens os_version =
     (if search_version s then tokens_at tokens i 1
      else find_version (i + 1) desc tokens os_version)"

text \<open>
  The branches compute the tuple \<open>(os_model, os_type, os_version, os_buildtime)\<close>,
  each component \<open>'Unknown'\<close> unless the branch assigns it, in the order in which the
  source evaluates the subscripts.
\<close>

definition decode_cisco ::
  "string list \<Rightarrow> (nat \<rightharpoonup> string list) \<Rightarrow> error + (string \<times> string \<times> string \<times> string)" where
  "decode_cisco desc tokens =
     and_then (tokens_at tokens 0 2) (\<lambda>w2.
     and_then (tokens_at tokens 0 1) (\<lambda>w1.
     and_then (find_version 0 desc tokens ''Unknown'') (\<lambda>os_version.
       Inr (''Unknown'',
            (if lower w2 = ''software'' then lower w1 else lower w1 @ ''_'' @ lower w2),
            os_version,
            ''Unknown''))))"

definition decode_juniper ::
  "(nat \<rightharpoonup> string list) \<Rightarrow> error + (string \<times> string \<times> string \<times> string)" where
  "decode_juniper tokens =
     and_then (tokens_at tokens 2 1) (\<lambda>t21.
     and_then (tokens_at tokens 1 1) (\<lambda>t11.
     and_then (tokens_at tokens 2 2) (\<lambda>t22.
     and_then (tokens_at tokens 3 2) (\<lambda>t32.
     and_then (tokens_at tokens 3 3) (\<lambda>t33.
       Inr (t11, lower t21, t22, t32 @ '' '' @ t33))))))"

definition decode_os :: "string \<Rightarrow> error + (string \<rightharpoonup> string)" where
  "decode_os sysdescr =
     (let desc = split_on CHR '','' sysdescr;
          tokens = tokenize 0 desc Map.empty
      in and_then (tokens_at tokens 0 0) (\<lambda>os_vendor.
         and_then
           (if lower os_vendor = ''cisco'' then decode_cisco desc tokens
            else if lower os_vendor = ''juniper'' then decode_juniper tokens
            else Inr (''Unknown'', ''Unknown'', ''Unknown'', ''Unknown''))
           (\<lambda>(os_model, os_type, os_version, os_buildtime).
              Inr [''ansible_os_vendor'' \<mapsto> os_vendor,
                   ''ansible_os_model'' \<mapsto> os_model,
                   ''ansible_os_type'' \<mapsto> os_type,
                   ''ansible_os_version'' \<mapsto> os_version,
                   ''ansible_os_buildtime'' \<mapsto> os_buildtime])))"

subsection \<open>The vocabulary of the claims about decode\_os\<close>

text \<open>
  The claims speak of the comma-separated fields of a description and of the
  whitespace-separated words of a field. These definitions follow those words and not
  the code; the theorems below compare them with what \<open>split\<close> computes.

  Field 0 is what precedes the first comma and field \<open>i + 1\<close> is field \<open>i\<close> of what
  follows the first comma; a description with \<open>n\<close> commas has \<open>n + 1\<close> fields.
\<close>

fun nth_field :: "nat \<Rightarrow> string \<Rightarrow> string" where
  "nth_field 0 s = takeWhile (\<lambda>c. c \<noteq> CHR '','') s"
| "nth_field (Suc i) s = nth_field i (drop 1 (dropWhile (\<lambda>c. c \<noteq> CHR '','') s))"

definition num_fields :: "string \<Rightarrow> nat" where
  "num_fields s = Suc (length (filter (\<lambda>c. c = CHR '','') s))"

definition all_fields :: "string \<Rightarrow> string list" where
  "all_fields s = map (\<lambda>i. nth_field i s) [0..<num_fields s]"

text \<open>
  A word is a maximal run of characters that are not whitespace. It ends at a character
  that is not whitespace and that whitespace or the end of the string follows;
  \<open>num_words\<close> counts these characters. The first word of a description is the first
  word of its field 0: what precedes the first whitespace once leading whitespace is
  dropped.
\<close>

fun num_words :: "string \<Rightarrow> nat" where
  "num_words [] = 0"
| "num_words [c] = (if isspace c then 0 else 1)"
| "num_words (c # d # cs) =
     (if \<not> isspace c \<and> isspace d then 1 else 0) + num_words (d # cs)"

definition first_word :: "string \<Rightarrow> string" where
  "first_word sysdescr =
     takeWhile (\<lambda>c. \<not> isspace c) (dropWhile isspace (nth_field 0 sysdescr))"

text \<open>
  The condition under which decode\_os returns: field 0 has a word; if the first word is
  cisco (letter case ignored) field 0 has three words and the first field in which
  \<open>version\<close> occurs, if there is one, has two; if it is juniper there are four fields,
  and fields 1, 2 and 3 have two, three and four words.
\<close>

definition decode_os_returns :: "string \<Rightarrow> bool" where
  "decode_os_returns sysdescr =
     (1 \<le> num_words (nth_field 0 sysdescr) \<and>
      (lower (first_word sysdescr) = ''cisco'' \<longrightarrow>
         3 \<le> num_words (nth_field 0 sysdescr) \<and>
         (case find search_version (all_fields sysdescr) of
            None \<Rightarrow> True
          | Some s \<Rightarrow> 2 \<le> num_words s)) \<and>
      (lower (first_word sysdescr) = ''juniper'' \<longrightarrow>
         4 \<le> num_fields sysdescr \<and>
         2 \<le> num_words (nth_field 1 sysdescr) \<and>
         3 \<le> num_words (nth_field 2 sysdescr) \<and>
         4 \<le> num_words (nth_field 3 sysdescr)))"

section \<open>Properties of the resolution\<close>

subsection \<open>The loop, token by token\<close>

lemma startswith_bang: "startswith t ''!'' = (\<exists>n. t = CHR ''!'' # n)"
  by (cases t) (auto simp: startswith_def)

lemma bang_all: "startswith t ''!'' \<Longrightarrow> (drop (Suc 0) t = ''all'') = (t = ''!all'')"
  by (auto simp: startswith_bang)

lemma spec_I_Cons: "spec_I V (t # toks) = included_by V t \<union> spec_I V toks"
  by (simp add: spec_I_def)

lemma spec_E_Cons: "spec_E V (t # toks) = excluded_by V t \<union> spec_E V toks"
  by (simp add: spec_E_def)

text \<open>
  When no token names an unknown subset the loop ends with the two sets of the
  specification added to the sets it started from.
\<close>

lemma select_subsets_known:
  "\<forall>t\<in>set toks. \<not> unknown_subset V t \<Longrightarrow>
   select_subsets msg V toks (r, e) = Inr (r \<union> spec_I V toks, e \<union> spec_E V toks)"
proof (induction toks arbitrary: r e)
  case Nil
  then show ?case by (simp add: spec_I_def spec_E_def)
next
  case (Cons t toks)
  then have rest:
    "\<And>r e. select_subsets msg V toks (r, e) = Inr (r \<union> spec_I V toks, e \<union> spec_E V toks)"
    by simp
  from Cons.prems have t: "\<not> unknown_subset V t" by simp
  have nb: "\<not> startswith ''all'' ''!''" by (simp add: startswith_def)
  show ?case
  proof (cases "t = ''all''")
    case True
    then show ?thesis unfolding spec_I_Cons spec_E_Cons
      by (auto simp: rest included_by_def excluded_by_def nb)
  next
    case notall: False
    show ?thesis
    proof (cases "startswith t ''!''")
      case True
      with notall t show ?thesis unfolding spec_I_Cons spec_E_Cons
        by (auto simp: rest unknown_subset_def strip_negation_def included_by_def
            excluded_by_def bang_all)
    next
      case False
      then have "t \<noteq> ''!all''" by (auto simp: startswith_def)
      with False notall t show ?thesis unfolding spec_I_Cons spec_E_Cons
        by (auto simp: rest unknown_subset_def strip_negation_def included_by_def
            excluded_by_def)
    qed
  qed
qed

text \<open>
  The first token that names an unknown subset ends the loop in \<open>fail_json\<close>, with the
  message made from the token stripped of its negation marker.
\<close>

lemma select_subsets_unknown:
  "find (unknown_subset V) toks = Some t \<Longrightarrow>
   select_subsets msg V toks (r, e) = Inl (msg (strip_negation t))"
proof (induction toks arbitrary: r e)
  case Nil
  then show ?case by simp
next
  case (Cons a toks)
  show ?case
  proof (cases "unknown_subset V a")
    case True
    with Cons.prems have "a = t" by simp
    with True show ?thesis
      by (auto simp: unknown_subset_def strip_negation_def)
  next
    case False
    with Cons.prems have "find (unknown_subset V) toks = Some t" by simp
    then have "\<And>r e. select_subsets msg V toks (r, e) = Inl (msg (strip_negation t))"
      by (rule Cons.IH)
    with False show ?thesis
      by (auto simp: unknown_subset_def strip_negation_def)
  qed
qed

lemma find_unknown_cases:
  "(\<forall>t\<in>set toks. \<not> unknown_subset V t) \<or>
   (\<exists>t. find (unknown_subset V) toks = Some t \<and> unknown_subset V t \<and> t \<in> set toks)"
  by (cases "find (unknown_subset V) toks") (auto simp: find_None_iff find_Some_iff)

lemma resolve_known:
  "\<forall>t\<in>set toks. \<not> unknown_subset V t \<Longrightarrow>
   resolve_subsets msg V toks =
     Inr (insert ''default'' ((if spec_I V toks = {} then V else spec_I V toks) - spec_E V toks))"
  by (simp add: resolve_subsets_def select_subsets_known)

lemma resolve_unknown:
  "find (unknown_subset V) toks = Some t \<Longrightarrow>
   resolve_subsets msg V toks = Inl (msg (strip_negation t))"
  by (simp add: resolve_subsets_def select_subsets_unknown)

lemma resolve_Inr_known:
  "resolve_subsets msg V toks = Inr rs \<Longrightarrow> \<forall>t\<in>set toks. \<not> unknown_subset V t"
  using find_unknown_cases [of toks V] by (auto simp: resolve_unknown)

lemma resolve_Inr_eq:
  assumes "resolve_subsets msg V toks = Inr rs"
  shows "rs = insert ''default'' ((if spec_I V toks = {} then V else spec_I V toks) - spec_E V toks)"
  using resolve_known [OF resolve_Inr_known [OF assms], of msg] assms by simp

lemma spec_I_subset: "\<forall>t\<in>set toks. \<not> unknown_subset V t \<Longrightarrow> spec_I V toks \<subseteq> V"
  by (auto simp: spec_I_def included_by_def unknown_subset_def strip_negation_def
      split: if_splits)

lemma resolve_Inr_subset:
  assumes "resolve_subsets msg V toks = Inr rs"
  shows "rs \<subseteq> insert ''default'' V"
  using resolve_Inr_eq [OF assms] spec_I_subset [OF resolve_Inr_known [OF assms]]
  by (auto split: if_splits)

lemma valid_token_known:
  assumes "\<forall>n\<in>V. \<not> startswith n ''!''" and "valid_token V t"
  shows "\<not> unknown_subset V t"
proof -
  have "startswith ''!all'' ''!''" by (simp add: startswith_def)
  with assms show ?thesis
    by (auto simp: valid_token_def unknown_subset_def strip_negation_def)
qed

subsection \<open>The claims about the resolution\<close>

text \<open>
  C1. Whenever the resolution of a token list against a catalog yields a RunSet, the
  RunSet contains default. The token list [!all] yields the RunSet that holds default
  alone, and against a catalog that has a default subset the token list [!default] yields
  the whole catalog, default included: no exclusion removes default.
\<close>

theorem default_always_in_runset:
  "(resolve_subsets msg V toks = Inr rs \<longrightarrow> ''default'' \<in> rs)
   \<and> resolve_subsets msg V [''!all''] = Inr {''default''}
   \<and> (''default'' \<in> V \<longrightarrow> resolve_subsets msg V [''!default''] = Inr V)"
proof (intro conjI impI)
  assume "resolve_subsets msg V toks = Inr rs"
  then show "''default'' \<in> rs"
    by (auto simp: resolve_subsets_def split: sum.splits prod.splits)
next
  show "resolve_subsets msg V [''!all''] = Inr {''default''}"
    by (simp add: resolve_subsets_def startswith_def)
next
  assume "''default'' \<in> V"
  then show "resolve_subsets msg V [''!default''] = Inr V"
    by (auto simp: resolve_subsets_def startswith_def)
qed

theorem default_always_in_runset_witness:
  "resolve_subsets (\<lambda>s. s) {''default'', ''hardware''} [''!default'']
     = Inr {''default'', ''hardware''}
   \<and> ''default'' \<in> {''default'', ''hardware''}"
  using default_always_in_runset
    [of "\<lambda>s. s" "{''default'', ''hardware''}" "[''!default'']" "{''default'', ''hardware''}"]
  by simp

text \<open>
  C2. Catalog names are Python identifiers (the keyword arguments of \<open>dict(...)\<close>), so
  none begins with the negation marker. For such a catalog and every token list whose
  tokens are all valid, the resolver returns ((I if I is non-empty else the valid names)
  minus E) plus default, with I and E as the specification defines them; the empty token
  list yields every valid name plus default.
\<close>

theorem resolve_valid_tokens:
  assumes "\<forall>n\<in>V. \<not> startswith n ''!''"
    and "\<forall>t\<in>set toks. valid_token V t"
  shows "resolve_subsets msg V toks =
           Inr (((if spec_I V toks \<noteq> {} then spec_I V toks else V) - spec_E V toks)
                \<union> {''default''})
         \<and> resolve_subsets msg V [] = Inr (V \<union> {''default''})"
proof
  from assms have "\<forall>t\<in>set toks. \<not> unknown_subset V t"
    by (auto dest: valid_token_known)
  then show "resolve_subsets msg V toks =
           Inr (((if spec_I V toks \<noteq> {} then spec_I V toks else V) - spec_E V toks)
                \<union> {''default''})"
    by (simp add: resolve_known)
next
  show "resolve_subsets msg V [] = Inr (V \<union> {''default''})"
    by (simp add: resolve_subsets_def)
qed

theorem resolve_valid_tokens_witness:
  "resolve_subsets (\<lambda>s. s) {''default'', ''hardware'', ''config''} [''!config'', ''hardware'']
     = Inr {''hardware'', ''default''}
   \<and> resolve_subsets (\<lambda>s. s) {''default'', ''hardware'', ''config''} []
     = Inr {''default'', ''hardware'', ''config''}"
proof -
  have names: "\<forall>n\<in>{''default'', ''hardware'', ''config''}. \<not> startswith n ''!''"
    by (simp add: startswith_def)
  have toks: "\<forall>t\<in>set [''!config'', ''hardware''].
                valid_token {''default'', ''hardware'', ''config''} t"
    by (simp add: valid_token_def startswith_def)
  have I: "spec_I {''default'', ''hardware'', ''config''} [''!config'', ''hardware'']
             = {''hardware''}"
    by (simp add: spec_I_def included_by_def startswith_def)
  have E: "spec_E {''default'', ''hardware'', ''config''} [''!config'', ''hardware'']
             = {''config''}"
    by (simp add: spec_E_def excluded_by_def startswith_def)
  show ?thesis
    using resolve_valid_tokens [OF names toks, of "\<lambda>s. s"] unfolding I E
    by (auto simp: insert_commute)
qed

text \<open>
  C4. When a resolution yields a RunSet and the token list holds both an inclusion of a
  name (the name itself, or all for a name of the catalog) and its negation, the name is
  not in the RunSet, unless it is default. Against a catalog with a hardware subset,
  [all, !hardware] yields every valid name except hardware, plus default.
\<close>

theorem negation_wins:
  "(resolve_subsets msg V toks = Inr rs \<and>
    (n \<in> set toks \<or> (''all'' \<in> set toks \<and> n \<in> V)) \<and>
    CHR ''!'' # n \<in> set toks \<and> n \<noteq> ''default'' \<longrightarrow> n \<notin> rs)
   \<and> (''hardware'' \<in> V \<longrightarrow>
        resolve_subsets msg V [''all'', ''!hardware''] = Inr ((V - {''hardware''}) \<union> {''default''}))"
proof (intro conjI impI)
  assume a: "resolve_subsets msg V toks = Inr rs \<and>
    (n \<in> set toks \<or> (''all'' \<in> set toks \<and> n \<in> V)) \<and>
    CHR ''!'' # n \<in> set toks \<and> n \<noteq> ''default''"
  then have res: "resolve_subsets msg V toks = Inr rs"
    and neg: "CHR ''!'' # n \<in> set toks" and nd: "n \<noteq> ''default''"
    by simp_all
  note known = resolve_Inr_known [OF res]
  have rs: "rs \<subseteq> insert ''default'' (V - spec_E V toks)"
    using resolve_Inr_eq [OF res] spec_I_subset [OF known] by (auto split: if_splits)
  have "excluded_by V (CHR ''!'' # n) \<subseteq> spec_E V toks"
    using neg by (auto simp: spec_E_def)
  moreover have "n \<in> V \<Longrightarrow> n \<in> excluded_by V (CHR ''!'' # n)"
    by (auto simp: excluded_by_def startswith_def)
  ultimately have "n \<in> V \<Longrightarrow> n \<in> spec_E V toks" by blast
  with rs nd show "n \<notin> rs" by blast
next
  assume "''hardware'' \<in> V"
  then show "resolve_subsets msg V [''all'', ''!hardware'']
               = Inr ((V - {''hardware''}) \<union> {''default''})"
    by (auto simp: resolve_subsets_def startswith_def)
qed

theorem negation_wins_witness:
  "''hardware'' \<notin> {''default'', ''config''}
   \<and> resolve_subsets (\<lambda>s. s) {''default'', ''hardware'', ''config''} [''all'', ''!hardware'']
       = Inr {''default'', ''config''}"
proof -
  have res: "resolve_subsets (\<lambda>s. s) {''default'', ''hardware'', ''config''}
               [''all'', ''!hardware''] = Inr {''default'', ''config''}"
    by (auto simp: resolve_subsets_def startswith_def)
  show ?thesis
    using negation_wins [of "\<lambda>s. s" "{''default'', ''hardware'', ''config''}"
        "[''all'', ''!hardware'']" "{''default'', ''config''}" "''hardware''"] res
    by simp
qed

text \<open>
  C8. A non-empty list of positive tokens restricts the run to the named subsets plus
  default: when every token is a name of the catalog (neither all nor a negation) the
  RunSet is exactly the set of the tokens plus default, and whenever a list without all
  holds at least one positive token, also beside negations, every name of the RunSet
  other than default is one of its positive tokens. So resolving [hardware] against a
  catalog with the names default, hardware, interfaces and config yields exactly the set
  of hardware and default.
\<close>

theorem positive_list_restricts:
  "(toks \<noteq> [] \<and> (\<forall>t\<in>set toks. t \<in> V \<and> t \<noteq> ''all'' \<and> \<not> startswith t ''!'') \<longrightarrow>
      resolve_subsets msg V toks = Inr (set toks \<union> {''default''}))
   \<and> (resolve_subsets msg V toks = Inr rs \<and> ''all'' \<notin> set toks \<and>
      (\<exists>t\<in>set toks. \<not> startswith t ''!'') \<longrightarrow>
      (\<forall>n\<in>rs. n = ''default'' \<or> (n \<in> set toks \<and> \<not> startswith n ''!'')))
   \<and> resolve_subsets msg {''default'', ''hardware'', ''interfaces'', ''config''} [''hardware'']
       = Inr {''hardware'', ''default''}"
proof (intro conjI impI)
  assume a: "toks \<noteq> [] \<and> (\<forall>t\<in>set toks. t \<in> V \<and> t \<noteq> ''all'' \<and> \<not> startswith t ''!'')"
  then have known: "\<forall>t\<in>set toks. \<not> unknown_subset V t"
    by (simp add: unknown_subset_def strip_negation_def)
  from a have "\<forall>t\<in>set toks. included_by V t = {t}"
    by (simp add: included_by_def)
  then have I: "spec_I V toks = set toks" by (auto simp: spec_I_def)
  have "\<forall>t\<in>set toks. excluded_by V t = {}"
  proof
    fix t assume t: "t \<in> set toks"
    with a have nb: "\<not> startswith t ''!''" by simp
    then have "t \<noteq> ''!all''" by (auto simp: startswith_def)
    with nb show "excluded_by V t = {}" by (simp add: excluded_by_def)
  qed
  then have E: "spec_E V toks = {}" by (simp add: spec_E_def)
  from a have "set toks \<noteq> {}" by simp
  with resolve_known [OF known, of msg] I E
  show "resolve_subsets msg V toks = Inr (set toks \<union> {''default''})" by simp
next
  assume a: "resolve_subsets msg V toks = Inr rs \<and> ''all'' \<notin> set toks \<and>
      (\<exists>t\<in>set toks. \<not> startswith t ''!'')"
  then have res: "resolve_subsets msg V toks = Inr rs" by simp
  have I: "spec_I V toks = {t \<in> set toks. \<not> startswith t ''!''}"
    using a by (auto simp: spec_I_def included_by_def split: if_splits)
  with a have "spec_I V toks \<noteq> {}" by auto
  with resolve_Inr_eq [OF res] have "rs \<subseteq> insert ''default'' (spec_I V toks)" by auto
  then show "\<forall>n\<in>rs. n = ''default'' \<or> (n \<in> set toks \<and> \<not> startswith n ''!'')"
    unfolding I by auto
next
  show "resolve_subsets msg {''default'', ''hardware'', ''interfaces'', ''config''} [''hardware'']
          = Inr {''hardware'', ''default''}"
    by (auto simp: resolve_subsets_def startswith_def)
qed

theorem positive_list_restricts_witness:
  "resolve_subsets (\<lambda>s. s) {''default'', ''hardware'', ''interfaces'', ''config''}
       [''interfaces'', ''config''] = Inr {''interfaces'', ''config'', ''default''}
   \<and> resolve_subsets (\<lambda>s. s) {''default'', ''hardware'', ''interfaces'', ''config''}
       [''hardware'', ''!config''] = Inr {''hardware'', ''default''}
   \<and> ''hardware'' \<in> set [''hardware'', ''!config'']"
proof (intro conjI)
  have toks: "[''interfaces'', ''config''] \<noteq> [] \<and>
      (\<forall>t\<in>set [''interfaces'', ''config''].
         t \<in> {''default'', ''hardware'', ''interfaces'', ''config''} \<and> t \<noteq> ''all'' \<and>
         \<not> startswith t ''!'')"
    by (simp add: startswith_def)
  from positive_list_restricts
    [of "[''interfaces'', ''config'']" "{''default'', ''hardware'', ''interfaces'', ''config''}"
        "\<lambda>s. s", THEN conjunct1, rule_format, OF toks]
  show "resolve_subsets (\<lambda>s. s) {''default'', ''hardware'', ''interfaces'', ''config''}
       [''interfaces'', ''config''] = Inr {''interfaces'', ''config'', ''default''}"
    by (simp add: insert_commute)
next
  have res: "resolve_subsets (\<lambda>s. s) {''default'', ''hardware'', ''interfaces'', ''config''}
       [''hardware'', ''!config''] = Inr {''hardware'', ''default''}
     \<and> ''all'' \<notin> set [''hardware'', ''!config'']
     \<and> (\<exists>t\<in>set [''hardware'', ''!config'']. \<not> startswith t ''!'')"
    by (auto simp: resolve_subsets_def startswith_def)
  from res show "resolve_subsets (\<lambda>s. s) {''default'', ''hardware'', ''interfaces'', ''config''}
       [''hardware'', ''!config''] = Inr {''hardware'', ''default''}"
    by (rule conjunct1)
  from positive_list_restricts
    [of "[''hardware'', ''!config'']" "{''default'', ''hardware'', ''interfaces'', ''config''}"
        "\<lambda>s. s" "{''hardware'', ''default''}", THEN conjunct2, THEN conjunct1, rule_format, OF res,
     of "''hardware''"]
  show "''hardware'' \<in> set [''hardware'', ''!config'']"
    by simp
qed

section \<open>Properties of the two mains\<close>

subsection \<open>The catalogs and the iteration order\<close>

lemma iosxr_VALID_SUBSETS:
  "VALID_SUBSETS (iosxr_FACT_SUBSETS scr) =
     {''default'', ''hardware'', ''interfaces'', ''config'', ''multicast'', ''bgp'', ''isis'',
      ''routes'', ''route_summary'', ''l2vpn''}"
  by (simp add: VALID_SUBSETS_def iosxr_FACT_SUBSETS_def)

lemma junos_VALID_SUBSETS:
  "VALID_SUBSETS (junos_FACT_SUBSETS rpc) =
     {''default'', ''hardware'', ''config'', ''interfaces'', ''interfaces_ext'', ''optics'',
      ''temperatures'', ''bgp_summary'', ''bgp_peers'', ''snapshots'', ''route_summary'',
      ''routes'', ''isis_overview'', ''route_engine'', ''l2vpn''}"
  by (simp add: VALID_SUBSETS_def junos_FACT_SUBSETS_def)

lemma enumerates_listed_order:
  "distinct names \<Longrightarrow> enumerates (listed_order names) (set names)"
  by (auto simp: enumerates_def listed_order_def)

lemma iosxr_names: "map fst (iosxr_FACT_SUBSETS scr) = iosxr_names"
  by (simp add: iosxr_FACT_SUBSETS_def iosxr_names_def)

lemma junos_names: "map fst (junos_FACT_SUBSETS rpc) = junos_names"
  by (simp add: junos_FACT_SUBSETS_def junos_names_def)

lemma enumerates_iosxr_names:
  "enumerates (listed_order iosxr_names) (VALID_SUBSETS (iosxr_FACT_SUBSETS scr))"
proof -
  have "distinct iosxr_names" by (simp add: iosxr_names_def)
  then have "enumerates (listed_order iosxr_names) (set iosxr_names)"
    by (rule enumerates_listed_order)
  then show ?thesis by (simp only: VALID_SUBSETS_def iosxr_names)
qed

lemma enumerates_junos_names:
  "enumerates (listed_order junos_names) (VALID_SUBSETS (junos_FACT_SUBSETS rpc))"
proof -
  have "distinct junos_names" by (simp add: junos_names_def)
  then have "enumerates (listed_order junos_names) (set junos_names)"
    by (rule enumerates_listed_order)
  then show ?thesis by (simp only: VALID_SUBSETS_def junos_names)
qed

text \<open>The order of the source text on the two RunSets the examples below meet.\<close>

lemma listed_order_examples:
  "listed_order iosxr_names {''default''} = [''default'']"
  "listed_order iosxr_names {''hardware'', ''default''} = [''default'', ''hardware'']"
  "listed_order junos_names {''default''} = [''default'']"
  "listed_order junos_names {''hardware'', ''default''} = [''default'', ''hardware'']"
  "listed_order iosxr_names {''default'', ''hardware''} = [''default'', ''hardware'']"
  "listed_order junos_names {''default'', ''hardware''} = [''default'', ''hardware'']"
  by (simp_all add: listed_order_def iosxr_names_def junos_names_def)

lemma iosxr_no_gather_subset_key:
  "\<forall>(name, inst)\<in>set (iosxr_FACT_SUBSETS scr). ''gather_subset'' \<notin> set (fact_keys inst)"
  by (simp add: iosxr_FACT_SUBSETS_def)

lemma junos_no_gather_subset_key:
  "\<forall>(name, inst)\<in>set (junos_FACT_SUBSETS rpc). ''gather_subset'' \<notin> set (junos_fact_keys inst)"
  by (simp add: junos_FACT_SUBSETS_def)

lemma instantiate_in_catalog:
  "instantiate cat keys = Inr insts \<Longrightarrow> \<forall>inst\<in>set insts. \<exists>name. (name, inst) \<in> set cat"
proof (induction keys arbitrary: insts)
  case Nil
  then show ?case by simp
next
  case (Cons key keys)
  from Cons.prems obtain x xs where
    x: "map_of cat key = Some x" and xs: "instantiate cat keys = Inr xs"
    and insts: "insts = x # xs"
    by (auto split: option.splits sum.splits)
  from x have "(key, x) \<in> set cat" by (rule map_of_SomeD)
  with Cons.IH [OF xs] insts show ?case by auto
qed


subsection \<open>The namespace prefix\<close>

lemma ansible_net_dom: "key \<in> dom (ansible_net fs) \<Longrightarrow> startswith key ''ansible_net_''"
  by (auto simp: ansible_net_def split: if_splits)

lemma ansible_net_gather_subset:
  "ansible_net fs ''ansible_net_gather_subset'' = fs ''gather_subset''"
  by (simp add: ansible_net_def startswith_def)

subsection \<open>The collecting loops\<close>

lemma dict_update_other:
  "key \<notin> dom inst_facts \<Longrightarrow> dict_update fs inst_facts key = fs key"
  by (auto simp: dict_update_def map_add_def split: option.splits)

lemma populate_dom:
  "populate inst res = Inr inst_facts \<Longrightarrow> dom inst_facts \<subseteq> set (fact_keys inst)"
  by (auto simp: populate_def restrict_map_def split: sum.splits if_splits)

lemma junos_populate_dom:
  "junos_populate inst = Inr inst_facts \<Longrightarrow> dom inst_facts \<subseteq> set (junos_fact_keys inst)"
  by (auto simp: junos_populate_def restrict_map_def split: sum.splits if_splits)

text \<open>
  A loop that ends normally has run every instance's populate step successfully and has
  left alone every key no instance assigns.
\<close>

lemma iosxr_collect_Inr:
  "iosxr_collect run insts st = Inr st' \<Longrightarrow>
   (\<forall>inst\<in>set insts. \<exists>responses inst_facts.
        run (commands inst) = Inr responses \<and>
        populate inst (dict_zip (commands inst) responses) = Inr inst_facts)
   \<and> ((\<forall>inst\<in>set insts. key \<notin> set (fact_keys inst)) \<longrightarrow> facts st' key = facts st key)"
proof (induction insts arbitrary: st)
  case Nil
  then show ?case by simp
next
  case (Cons inst insts)
  from Cons.prems obtain responses inst_facts where
    run: "run (commands inst) = Inr responses" and
    pop: "populate inst (dict_zip (commands inst) responses) = Inr inst_facts" and
    rest: "iosxr_collect run insts
             (st\<lparr>facts := dict_update (facts st) inst_facts,
                 results := Some (dict_zip (commands inst) responses),
                 issued := issued st @ [commands inst]\<rparr>) = Inr st'"
    by (auto split: sum.splits)
  note IH = Cons.IH [OF rest]
  have "key \<notin> set (fact_keys inst) \<Longrightarrow> dict_update (facts st) inst_facts key = facts st key"
    using populate_dom [OF pop] by (intro dict_update_other) auto
  with IH run pop show ?case by auto
qed

lemma junos_collect_Inr:
  "junos_collect insts (fs, n) = Inr (fs', n') \<Longrightarrow>
   (\<forall>inst\<in>set insts. \<exists>inst_facts. junos_populate inst = Inr inst_facts)
   \<and> ((\<forall>inst\<in>set insts. key \<notin> set (junos_fact_keys inst)) \<longrightarrow> fs' key = fs key)"
proof (induction insts arbitrary: fs n)
  case Nil
  then show ?case by simp
next
  case (Cons inst insts)
  from Cons.prems obtain inst_facts where
    pop: "junos_populate inst = Inr inst_facts" and
    rest: "junos_collect insts (dict_update fs inst_facts, Suc n) = Inr (fs', n')"
    by (auto split: sum.splits)
  note IH = Cons.IH [OF rest]
  have "key \<notin> set (junos_fact_keys inst) \<Longrightarrow> dict_update fs inst_facts key = fs key"
    using junos_populate_dom [OF pop] by (intro dict_update_other) auto
  with IH pop show ?case by auto
qed

text \<open>The handler of iosxr\_facts never returns a fact map.\<close>

lemma iosxr_handler_cases:
  "(\<exists>j. iosxr_handler from_json e st = ExitOut j) \<or>
   (\<exists>e'. iosxr_handler from_json e st = Uncaught e')"
  by (auto simp: iosxr_handler_def split: option.splits sum.splits)

text \<open>What a main that returns a fact map has done.\<close>

lemma iosxr_main_ExitFacts:
  assumes "iosxr_main order run from_json cat ws toks = (tr, ExitFacts fm ws')"
  shows "\<exists>rs insts st.
           resolve_subsets iosxr_msg (VALID_SUBSETS cat) toks = Inr rs \<and>
           instantiate cat (order rs) = Inr insts \<and>
           iosxr_collect run insts
             \<lparr>facts = [''gather_subset'' \<mapsto> SubsetList (order rs)],
              results = None, issued = []\<rparr> = Inr st \<and>
           fm = ansible_net (facts st) \<and> ws' = ws"
proof -
  obtain rs where rs: "resolve_subsets iosxr_msg (VALID_SUBSETS cat) toks = Inr rs"
    using assms by (auto simp: iosxr_main_def split: sum.splits)
  obtain insts where insts: "instantiate cat (order rs) = Inr insts"
    using assms rs by (auto simp: iosxr_main_def split: sum.splits)
  let ?st0 = "\<lparr>facts = [''gather_subset'' \<mapsto> SubsetList (order rs)],
               results = None, issued = []\<rparr> :: 'a iosxr_state"
  show ?thesis
  proof (cases "iosxr_collect run insts ?st0")
    case (Inl a)
    obtain e st where "a = (e, st)" by (cases a)
    with Inl assms rs insts have "iosxr_handler from_json e st = ExitFacts fm ws'"
      by (simp add: iosxr_main_def)
    with iosxr_handler_cases [of from_json e st] show ?thesis by auto
  next
    case (Inr st)
    with assms rs insts show ?thesis by (auto simp: iosxr_main_def)
  qed
qed

lemma junos_main_ExitFacts:
  assumes "junos_main order cat ws toks = (n, ExitFacts fm ws')"
  shows "\<exists>rs insts fs.
           resolve_subsets (junos_msg order (VALID_SUBSETS cat)) (VALID_SUBSETS cat) toks = Inr rs \<and>
           instantiate cat (order rs) = Inr insts \<and>
           junos_collect insts ([''gather_subset'' \<mapsto> SubsetList (order rs)], 0) = Inr (fs, n) \<and>
           fm = ansible_net fs \<and> ws' = ws"
  using assms by (auto simp: junos_main_def split: sum.splits prod.splits)

subsection \<open>The claims about the two mains\<close>

text \<open>
  C3, as the claim states it, fails in iosxr\_facts: on the token list [bogus] the module
  fails before any command is sent, but its message is the fixed text \<open>Bad subset\<close>,
  which neither names the token nor lists a valid subset name.
\<close>

theorem iosxr_bad_subset_counterexample:
  "iosxr_main (listed_order iosxr_names)
       (\<lambda>cmds. Inr (map (\<lambda>c. ''output'') cmds))
       (\<lambda>res. (Inl (OtherException ''TypeError'') :: error + string))
       (iosxr_FACT_SUBSETS (\<lambda>name res. (Inr Map.empty :: error + (string \<rightharpoonup> string))))
       [] [''bogus'']
     = ([], FailJson ''Bad subset'')
   \<and> \<not> occurs_in ''bogus'' ''Bad subset''
   \<and> \<not> occurs_in ''default'' ''Bad subset''"
  by (simp add: iosxr_main_def resolve_subsets_def iosxr_VALID_SUBSETS iosxr_msg_def
      startswith_def)

text \<open>
  C3, amended. When a token list contains a token that names an unknown subset (stripped
  of the negation marker it is neither all nor a name of the catalog), both modules end in
  \<open>fail_json\<close> before any command is sent and before any populate step starts. In
  junos\_facts the message lists the valid subset names and ends with the first such
  token, stripped of its negation marker; in iosxr\_facts the message is the fixed text
  \<open>Bad subset\<close>.
\<close>

theorem unknown_subset_fails_fast:
  "((\<exists>t\<in>set toks. unknown_subset (VALID_SUBSETS cat) t) \<longrightarrow>
      iosxr_main order run from_json cat ws toks = ([], FailJson ''Bad subset''))
   \<and> ((\<exists>t\<in>set toks. unknown_subset (VALID_SUBSETS jcat) t) \<longrightarrow>
      (\<exists>t. find (unknown_subset (VALID_SUBSETS jcat)) toks = Some t \<and>
           junos_main order jcat ws toks =
             (0, FailJson (''Subset must be one of ['' @
                           join '', '' (order (VALID_SUBSETS jcat)) @
                           ''], got '' @ strip_negation t))))"
proof (intro conjI impI)
  assume "\<exists>t\<in>set toks. unknown_subset (VALID_SUBSETS cat) t"
  with find_unknown_cases [of toks "VALID_SUBSETS cat"]
  obtain t where "find (unknown_subset (VALID_SUBSETS cat)) toks = Some t" by blast
  then show "iosxr_main order run from_json cat ws toks = ([], FailJson ''Bad subset'')"
    by (simp add: iosxr_main_def resolve_unknown iosxr_msg_def)
next
  assume "\<exists>t\<in>set toks. unknown_subset (VALID_SUBSETS jcat) t"
  with find_unknown_cases [of toks "VALID_SUBSETS jcat"]
  obtain t where t: "find (unknown_subset (VALID_SUBSETS jcat)) toks = Some t" by blast
  then have "junos_main order jcat ws toks =
             (0, FailJson (''Subset must be one of ['' @
                           join '', '' (order (VALID_SUBSETS jcat)) @
                           ''], got '' @ strip_negation t))"
    by (simp add: junos_main_def resolve_unknown junos_msg_def)
  with t show "\<exists>t. find (unknown_subset (VALID_SUBSETS jcat)) toks = Some t \<and>
           junos_main order jcat ws toks =
             (0, FailJson (''Subset must be one of ['' @
                           join '', '' (order (VALID_SUBSETS jcat)) @
                           ''], got '' @ strip_negation t))"
    by blast
qed

theorem unknown_subset_fails_fast_witness:
  "iosxr_main (listed_order iosxr_names)
       (\<lambda>cmds. Inr (map (\<lambda>c. ''output'') cmds))
       (\<lambda>res. (Inl (OtherException ''TypeError'') :: error + string))
       (iosxr_FACT_SUBSETS (\<lambda>name res. (Inr Map.empty :: error + (string \<rightharpoonup> string))))
       [] [''hardware'', ''!bogus'']
     = ([], FailJson ''Bad subset'')
   \<and> junos_main (listed_order junos_names)
       (junos_FACT_SUBSETS (\<lambda>name. (Inr Map.empty :: error + (string \<rightharpoonup> string))))
       [] [''hardware'', ''!bogus'']
     = (0, (FailJson (''Subset must be one of [default, hardware, config, interfaces, '' @
                      ''interfaces_ext, optics, temperatures, bgp_summary, bgp_peers, '' @
                      ''snapshots, route_summary, routes, isis_overview, route_engine, '' @
                      ''l2vpn], got bogus'')
             :: (string, string) outcome))"
proof
  let ?cat = "iosxr_FACT_SUBSETS (\<lambda>name res. (Inr Map.empty :: error + (string \<rightharpoonup> string)))"
  have "unknown_subset (VALID_SUBSETS ?cat) ''!bogus''"
    unfolding iosxr_VALID_SUBSETS
    by (simp add: unknown_subset_def strip_negation_def startswith_def)
  then have u: "\<exists>t\<in>set [''hardware'', ''!bogus'']. unknown_subset (VALID_SUBSETS ?cat) t"
    by simp
  from unknown_subset_fails_fast [THEN conjunct1, rule_format, OF u]
  show "iosxr_main (listed_order iosxr_names)
       (\<lambda>cmds. Inr (map (\<lambda>c. ''output'') cmds))
       (\<lambda>res. (Inl (OtherException ''TypeError'') :: error + string))
       ?cat [] [''hardware'', ''!bogus'']
     = ([], FailJson ''Bad subset'')" .
next
  let ?cat = "junos_FACT_SUBSETS (\<lambda>name. (Inr Map.empty :: error + (string \<rightharpoonup> string)))"
  have h: "\<not> unknown_subset (VALID_SUBSETS ?cat) ''hardware''"
    unfolding junos_VALID_SUBSETS
    by (simp add: unknown_subset_def strip_negation_def startswith_def)
  have b: "unknown_subset (VALID_SUBSETS ?cat) ''!bogus''"
    unfolding junos_VALID_SUBSETS
    by (simp add: unknown_subset_def strip_negation_def startswith_def)
  from b have u: "\<exists>t\<in>set [''hardware'', ''!bogus'']. unknown_subset (VALID_SUBSETS ?cat) t"
    by simp
  have f: "find (unknown_subset (VALID_SUBSETS ?cat)) [''hardware'', ''!bogus''] = Some ''!bogus''"
    using h b by simp
  have s: "strip_negation ''!bogus'' = ''bogus''"
    by (simp add: strip_negation_def startswith_def)
  have o: "listed_order junos_names (VALID_SUBSETS ?cat) = junos_names"
    unfolding junos_VALID_SUBSETS by (simp add: listed_order_def junos_names_def)
  from unknown_subset_fails_fast
    [THEN conjunct2, rule_format, OF u, of "listed_order junos_names" "[]"]
  have "junos_main (listed_order junos_names) ?cat [] [''hardware'', ''!bogus'']
     = (0, (FailJson (''Subset must be one of ['' @ join '', '' junos_names @
                      ''], got bogus'') :: (string, string) outcome))"
    unfolding f o by (simp add: s)
  then show "junos_main (listed_order junos_names) ?cat [] [''hardware'', ''!bogus'']
     = (0, (FailJson (''Subset must be one of [default, hardware, config, interfaces, '' @
                      ''interfaces_ext, optics, temperatures, bgp_summary, bgp_peers, '' @
                      ''snapshots, route_summary, routes, isis_overview, route_engine, '' @
                      ''l2vpn], got bogus'')
             :: (string, string) outcome))"
    by (simp add: junos_names_def)
qed




text \<open>
  C6, as the claim states it, fails in both modules. With hardware selected and its
  populate step failing after the default subset has been gathered, junos\_facts ends with
  the uncaught exception, and iosxr\_facts, whose handler passes the dictionary of raw
  responses to \<open>from_json\<close> (which raises on a dictionary), ends with that exception:
  neither returns the facts gathered so far.
\<close>

theorem populate_failure_counterexample:
  "junos_main
       (listed_order junos_names)
       (junos_FACT_SUBSETS
          (\<lambda>name. if name = ''hardware'' then Inl (OtherException ''rpc failed'')
                   else Inr [''version'' \<mapsto> ''17.3'']))
       [] [''hardware'']
     = (2, (Uncaught (OtherException ''rpc failed'') :: (string, string) outcome))
   \<and> snd (iosxr_main
       (listed_order iosxr_names)
       (\<lambda>cmds. Inr (map (\<lambda>c. ''output'') cmds))
       (\<lambda>res. (Inl (OtherException ''TypeError'') :: error + string))
       (iosxr_FACT_SUBSETS
          (\<lambda>name res. if name = ''hardware'' then Inl IndexError
                       else Inr [''version'' \<mapsto> ''6.1'']))
       [] [''hardware''])
     = Uncaught (OtherException ''TypeError'')"
proof
  show "junos_main
       (listed_order junos_names)
       (junos_FACT_SUBSETS
          (\<lambda>name. if name = ''hardware'' then Inl (OtherException ''rpc failed'')
                   else Inr [''version'' \<mapsto> ''17.3'']))
       [] [''hardware'']
     = (2, (Uncaught (OtherException ''rpc failed'') :: (string, string) outcome))"
    unfolding junos_main_def junos_VALID_SUBSETS
    by (simp add: resolve_subsets_def startswith_def listed_order_examples
        junos_FACT_SUBSETS_def junos_populate_def)
next
  show "snd (iosxr_main
       (listed_order iosxr_names)
       (\<lambda>cmds. Inr (map (\<lambda>c. ''output'') cmds))
       (\<lambda>res. (Inl (OtherException ''TypeError'') :: error + string))
       (iosxr_FACT_SUBSETS
          (\<lambda>name res. if name = ''hardware'' then Inl IndexError
                       else Inr [''version'' \<mapsto> ''6.1'']))
       [] [''hardware''])
     = Uncaught (OtherException ''TypeError'')"
    unfolding iosxr_main_def iosxr_VALID_SUBSETS
    by (simp add: resolve_subsets_def startswith_def listed_order_examples iosxr_msg_def
        iosxr_FACT_SUBSETS_def populate_def iosxr_handler_def)
qed

text \<open>
  C6, amended. If the populate step of a selected subset fails, the invocation returns no
  fact map. junos\_facts has no handler: it ends with an uncaught exception. The handler
  of iosxr\_facts drops the facts gathered so far: the invocation ends either in
  \<open>exit_json(out=...)\<close>, which carries no facts, or with an exception nobody
  catches.
\<close>

theorem populate_failure_no_facts:
  "(resolve_subsets iosxr_msg (VALID_SUBSETS cat) toks = Inr rs \<and>
    instantiate cat (order rs) = Inr insts \<and> inst \<in> set insts \<and>
    run (commands inst) = Inr responses \<and>
    populate inst (dict_zip (commands inst) responses) = Inl e \<longrightarrow>
      (\<exists>j. snd (iosxr_main order run from_json cat ws toks) = ExitOut j) \<or>
      (\<exists>e'. snd (iosxr_main order run from_json cat ws toks) = Uncaught e'))
   \<and> (resolve_subsets (junos_msg order (VALID_SUBSETS jcat)) (VALID_SUBSETS jcat) toks = Inr rs \<and>
    instantiate jcat (order rs) = Inr jinsts \<and> jinst \<in> set jinsts \<and>
    junos_populate jinst = Inl e \<longrightarrow>
      (\<exists>e'. snd (junos_main order jcat ws toks) = Uncaught e'))"
proof (intro conjI impI)
  assume a: "resolve_subsets iosxr_msg (VALID_SUBSETS cat) toks = Inr rs \<and>
    instantiate cat (order rs) = Inr insts \<and> inst \<in> set insts \<and>
    run (commands inst) = Inr responses \<and>
    populate inst (dict_zip (commands inst) responses) = Inl e"
  let ?st0 = "\<lparr>facts = [''gather_subset'' \<mapsto> SubsetList (order rs)],
               results = None, issued = []\<rparr> :: 'a iosxr_state"
  show "(\<exists>j. snd (iosxr_main order run from_json cat ws toks) = ExitOut j) \<or>
        (\<exists>e'. snd (iosxr_main order run from_json cat ws toks) = Uncaught e')"
  proof (cases "iosxr_collect run insts ?st0")
    case (Inl p)
    obtain e1 st where "p = (e1, st)" by (cases p)
    with Inl a have "snd (iosxr_main order run from_json cat ws toks)
                       = iosxr_handler from_json e1 st"
      by (simp add: iosxr_main_def)
    with iosxr_handler_cases [of from_json e1 st] show ?thesis by auto
  next
    case (Inr st)
    from iosxr_collect_Inr [OF Inr, of "''''"] a have False by fastforce
    then show ?thesis ..
  qed
next
  assume a: "resolve_subsets (junos_msg order (VALID_SUBSETS jcat)) (VALID_SUBSETS jcat) toks
               = Inr rs \<and>
    instantiate jcat (order rs) = Inr jinsts \<and> jinst \<in> set jinsts \<and>
    junos_populate jinst = Inl e"
  show "\<exists>e'. snd (junos_main order jcat ws toks) = Uncaught e'"
  proof (cases "junos_collect jinsts ([''gather_subset'' \<mapsto> SubsetList (order rs)], 0)")
    case (Inl p)
    obtain e1 n where "p = (e1, n)" by (cases p)
    with Inl a show ?thesis by (simp add: junos_main_def)
  next
    case (Inr p)
    obtain fs n where "p = (fs, n)" by (cases p)
    with Inr have "junos_collect jinsts ([''gather_subset'' \<mapsto> SubsetList (order rs)], 0)
                     = Inr (fs, n)" by simp
    from junos_collect_Inr [OF this, of "''''"] a have False by fastforce
    then show ?thesis ..
  qed
qed

theorem populate_failure_no_facts_witness:
  "((\<exists>j. snd (iosxr_main (listed_order [''default''])
               (\<lambda>cmds. Inr (map (\<lambda>c. ''output'') cmds))
               (\<lambda>res. (Inl (OtherException ''TypeError'') :: error + string))
               [(''default'', \<lparr>commands = [''show version brief''], fact_keys = [''version''],
                   scrape = (\<lambda>res. (Inl KeyError :: error + (string \<rightharpoonup> string)))\<rparr>)]
               [] []) = ExitOut j) \<or>
    (\<exists>e'. snd (iosxr_main (listed_order [''default''])
               (\<lambda>cmds. Inr (map (\<lambda>c. ''output'') cmds))
               (\<lambda>res. (Inl (OtherException ''TypeError'') :: error + string))
               [(''default'', \<lparr>commands = [''show version brief''], fact_keys = [''version''],
                   scrape = (\<lambda>res. (Inl KeyError :: error + (string \<rightharpoonup> string)))\<rparr>)]
               [] []) = Uncaught e'))
   \<and> (\<exists>e'. snd (junos_main (listed_order [''default''])
               [(''default'', \<lparr>junos_fact_keys = [''version''],
                   rpc_reply = (Inl KeyError :: error + (string \<rightharpoonup> string))\<rparr>)]
               [] []) = (Uncaught e' :: (string, string) outcome))"
proof -
  let ?inst = "\<lparr>commands = [''show version brief''], fact_keys = [''version''],
                 scrape = (\<lambda>res. (Inl KeyError :: error + (string \<rightharpoonup> string)))\<rparr>"
  let ?jinst = "\<lparr>junos_fact_keys = [''version''],
                  rpc_reply = (Inl KeyError :: error + (string \<rightharpoonup> string))\<rparr>"
  let ?order = "listed_order [''default'']"
  let ?run = "\<lambda>cmds :: string list. (Inr (map (\<lambda>c. ''output'') cmds) :: error + string list)"
  have i: "resolve_subsets iosxr_msg (VALID_SUBSETS [(''default'', ?inst)]) [] = Inr {''default''}
      \<and> instantiate [(''default'', ?inst)] (?order {''default''}) = Inr [?inst]
      \<and> ?inst \<in> set [?inst]
      \<and> ?run (commands ?inst) = Inr [''output'']
      \<and> populate ?inst (dict_zip (commands ?inst) [''output'']) = Inl KeyError"
    by (simp add: resolve_subsets_def VALID_SUBSETS_def listed_order_def populate_def)
  have j: "resolve_subsets (junos_msg ?order (VALID_SUBSETS [(''default'', ?jinst)]))
             (VALID_SUBSETS [(''default'', ?jinst)]) [] = Inr {''default''}
      \<and> instantiate [(''default'', ?jinst)] (?order {''default''}) = Inr [?jinst]
      \<and> ?jinst \<in> set [?jinst]
      \<and> junos_populate ?jinst = Inl KeyError"
    by (simp add: resolve_subsets_def VALID_SUBSETS_def listed_order_def junos_populate_def)
  from populate_failure_no_facts
    [of "[(''default'', ?inst)]" "[]" "{''default''}" ?order "[?inst]" ?inst ?run
        "[''output'']" KeyError "\<lambda>res. (Inl (OtherException ''TypeError'') :: error + string)"
        "[]" "[(''default'', ?jinst)]" "[?jinst]" ?jinst]
    i j
  show ?thesis by blast
qed

text \<open>
  C7. Whenever an invocation of either module returns a fact map (Python iterating the
  subsets of the catalog in some order without repetition), every key of the map begins
  with ansible\_net\_, and the key ansible\_net\_gather\_subset is present with a list that
  holds exactly the names of the resolved RunSet, each once.
\<close>

theorem facts_namespaced:
  "(enumerates order (VALID_SUBSETS (iosxr_FACT_SUBSETS scr)) \<and>
    iosxr_main order run from_json (iosxr_FACT_SUBSETS scr) ws toks = (tr, ExitFacts fm ws') \<longrightarrow>
      (\<forall>key\<in>dom fm. startswith key ''ansible_net_'') \<and>
      (\<exists>rs l. resolve_subsets iosxr_msg (VALID_SUBSETS (iosxr_FACT_SUBSETS scr)) toks = Inr rs \<and>
              fm ''ansible_net_gather_subset'' = Some (SubsetList l) \<and>
              set l = rs \<and> distinct l))
   \<and> (enumerates order (VALID_SUBSETS (junos_FACT_SUBSETS rpc)) \<and>
    junos_main order (junos_FACT_SUBSETS rpc) ws toks = (n, ExitFacts jfm ws') \<longrightarrow>
      (\<forall>key\<in>dom jfm. startswith key ''ansible_net_'') \<and>
      (\<exists>rs l. resolve_subsets (junos_msg order (VALID_SUBSETS (junos_FACT_SUBSETS rpc)))
                 (VALID_SUBSETS (junos_FACT_SUBSETS rpc)) toks = Inr rs \<and>
              jfm ''ansible_net_gather_subset'' = Some (SubsetList l) \<and>
              set l = rs \<and> distinct l))"
proof -
  let ?cat = "iosxr_FACT_SUBSETS scr"
  have iosxr: "enumerates order (VALID_SUBSETS (iosxr_FACT_SUBSETS scr)) \<and>
    iosxr_main order run from_json (iosxr_FACT_SUBSETS scr) ws toks = (tr, ExitFacts fm ws') \<longrightarrow>
      (\<forall>key\<in>dom fm. startswith key ''ansible_net_'') \<and>
      (\<exists>rs l. resolve_subsets iosxr_msg (VALID_SUBSETS (iosxr_FACT_SUBSETS scr)) toks = Inr rs \<and>
              fm ''ansible_net_gather_subset'' = Some (SubsetList l) \<and>
              set l = rs \<and> distinct l)"
  proof
  assume a: "enumerates order (VALID_SUBSETS ?cat) \<and>
    iosxr_main order run from_json ?cat ws toks = (tr, ExitFacts fm ws')"
  then obtain rs insts st where
    rs: "resolve_subsets iosxr_msg (VALID_SUBSETS ?cat) toks = Inr rs" and
    insts: "instantiate ?cat (order rs) = Inr insts" and
    st: "iosxr_collect run insts
           \<lparr>facts = [''gather_subset'' \<mapsto> SubsetList (order rs)],
            results = None, issued = []\<rparr> = Inr st" and
    fm: "fm = ansible_net (facts st)"
    using iosxr_main_ExitFacts by blast
  have "''default'' \<in> VALID_SUBSETS ?cat" by (simp add: iosxr_VALID_SUBSETS)
  with resolve_Inr_subset [OF rs] have "rs \<subseteq> VALID_SUBSETS ?cat" by auto
  with a have l: "set (order rs) = rs \<and> distinct (order rs)"
    by (simp add: enumerates_def)
  have "\<forall>inst\<in>set insts. ''gather_subset'' \<notin> set (fact_keys inst)"
    using instantiate_in_catalog [OF insts] iosxr_no_gather_subset_key [of scr] by fastforce
  with iosxr_collect_Inr [OF st, of "''gather_subset''"]
  have "facts st ''gather_subset'' = Some (SubsetList (order rs))" by simp
  then have "fm ''ansible_net_gather_subset'' = Some (SubsetList (order rs))"
    by (simp add: fm ansible_net_gather_subset)
  with rs l show "(\<forall>key\<in>dom fm. startswith key ''ansible_net_'') \<and>
      (\<exists>rs l. resolve_subsets iosxr_msg (VALID_SUBSETS ?cat) toks = Inr rs \<and>
              fm ''ansible_net_gather_subset'' = Some (SubsetList l) \<and>
              set l = rs \<and> distinct l)"
    using ansible_net_dom [of _ "facts st"] by (auto simp: fm)
  qed
  let ?cat = "junos_FACT_SUBSETS rpc"
  have junos: "enumerates order (VALID_SUBSETS (junos_FACT_SUBSETS rpc)) \<and>
    junos_main order (junos_FACT_SUBSETS rpc) ws toks = (n, ExitFacts jfm ws') \<longrightarrow>
      (\<forall>key\<in>dom jfm. startswith key ''ansible_net_'') \<and>
      (\<exists>rs l. resolve_subsets (junos_msg order (VALID_SUBSETS (junos_FACT_SUBSETS rpc)))
                 (VALID_SUBSETS (junos_FACT_SUBSETS rpc)) toks = Inr rs \<and>
              jfm ''ansible_net_gather_subset'' = Some (SubsetList l) \<and>
              set l = rs \<and> distinct l)"
  proof
  assume a: "enumerates order (VALID_SUBSETS ?cat) \<and>
    junos_main order ?cat ws toks = (n, ExitFacts jfm ws')"
  then obtain rs insts fs where
    rs: "resolve_subsets (junos_msg order (VALID_SUBSETS ?cat)) (VALID_SUBSETS ?cat) toks
           = Inr rs" and
    insts: "instantiate ?cat (order rs) = Inr insts" and
    st: "junos_collect insts ([''gather_subset'' \<mapsto> SubsetList (order rs)], 0) = Inr (fs, n)" and
    fm: "jfm = ansible_net fs"
    using junos_main_ExitFacts by blast
  have "''default'' \<in> VALID_SUBSETS ?cat" by (simp add: junos_VALID_SUBSETS)
  with resolve_Inr_subset [OF rs] have "rs \<subseteq> VALID_SUBSETS ?cat" by auto
  with a have l: "set (order rs) = rs \<and> distinct (order rs)"
    by (simp add: enumerates_def)
  have "\<forall>inst\<in>set insts. ''gather_subset'' \<notin> set (junos_fact_keys inst)"
    using instantiate_in_catalog [OF insts] junos_no_gather_subset_key [of rpc] by fastforce
  with junos_collect_Inr [OF st, of "''gather_subset''"]
  have "fs ''gather_subset'' = Some (SubsetList (order rs))" by simp
  then have "jfm ''ansible_net_gather_subset'' = Some (SubsetList (order rs))"
    by (simp add: fm ansible_net_gather_subset)
  with rs l show "(\<forall>key\<in>dom jfm. startswith key ''ansible_net_'') \<and>
      (\<exists>rs l. resolve_subsets (junos_msg order (VALID_SUBSETS ?cat)) (VALID_SUBSETS ?cat) toks
                 = Inr rs \<and>
              jfm ''ansible_net_gather_subset'' = Some (SubsetList l) \<and>
              set l = rs \<and> distinct l)"
    using ansible_net_dom [of _ fs] by (auto simp: fm)
  qed
  from iosxr junos show ?thesis by (rule conjI)
qed

theorem facts_namespaced_witness:
  "(\<exists>tr fm l.
      iosxr_main (listed_order iosxr_names)
        (\<lambda>cmds. Inr (map (\<lambda>c. ''output'') cmds))
        (\<lambda>res. (Inl (OtherException ''TypeError'') :: error + string))
        (iosxr_FACT_SUBSETS
           (\<lambda>name res. (Inr [''version'' \<mapsto> ''6.1''] :: error + (string \<rightharpoonup> string))))
        [] [''hardware'']
      = (tr, ExitFacts fm []) \<and>
      fm ''gather_subset'' = None \<and>
      fm ''ansible_net_gather_subset'' = Some (SubsetList l) \<and>
      set l = {''hardware'', ''default''})
   \<and> (\<exists>n fm l.
      junos_main (listed_order junos_names)
        (junos_FACT_SUBSETS
           (\<lambda>name. (Inr [''version'' \<mapsto> ''17.3''] :: error + (string \<rightharpoonup> string))))
        [] [''hardware'']
      = (n, (ExitFacts fm [] :: (string, string) outcome)) \<and>
      fm ''gather_subset'' = None \<and>
      fm ''ansible_net_gather_subset'' = Some (SubsetList l) \<and>
      set l = {''hardware'', ''default''})"
proof
  let ?scr = "\<lambda>(name :: string) (res :: string \<rightharpoonup> string).
                (Inr [''version'' \<mapsto> ''6.1''] :: error + (string \<rightharpoonup> string))"
  let ?order = "listed_order iosxr_names"
  let ?run = "\<lambda>cmds :: string list. (Inr (map (\<lambda>c. ''output'') cmds) :: error + string list)"
  let ?from_json = "\<lambda>res :: string \<rightharpoonup> string. (Inl (OtherException ''TypeError'') :: error + string)"
  note e = enumerates_iosxr_names [of ?scr]
  have r: "resolve_subsets iosxr_msg (VALID_SUBSETS (iosxr_FACT_SUBSETS ?scr)) [''hardware'']
             = Inr {''hardware'', ''default''}"
    unfolding iosxr_VALID_SUBSETS
    by (simp add: resolve_subsets_def startswith_def insert_commute)
  have "\<exists>tr fm. iosxr_main ?order ?run ?from_json (iosxr_FACT_SUBSETS ?scr) [] [''hardware'']
                  = (tr, ExitFacts fm [])"
    unfolding iosxr_main_def r sum.case listed_order_examples
    by (simp add: iosxr_FACT_SUBSETS_def populate_def)
  then obtain tr fm where
    m: "iosxr_main ?order ?run ?from_json (iosxr_FACT_SUBSETS ?scr) [] [''hardware'']
          = (tr, ExitFacts fm [])"
    by blast
  note inst = facts_namespaced
    [of ?order ?scr ?run ?from_json "[]" "[''hardware'']" tr fm "[]",
     THEN conjunct1, rule_format, OF conjI [OF e m]]
  from inst have "\<forall>key\<in>dom fm. startswith key ''ansible_net_''"
    by (rule conjunct1)
  moreover have "\<not> startswith ''gather_subset'' ''ansible_net_''"
    by (simp add: startswith_def)
  ultimately have keys: "fm ''gather_subset'' = None"
    by (cases "fm ''gather_subset''") auto
  from inst have "\<exists>rs l. resolve_subsets iosxr_msg (VALID_SUBSETS (iosxr_FACT_SUBSETS ?scr))
                          [''hardware''] = Inr rs \<and>
                  fm ''ansible_net_gather_subset'' = Some (SubsetList l) \<and>
                  set l = rs \<and> distinct l"
    by (rule conjunct2)
  then obtain l where
    "fm ''ansible_net_gather_subset'' = Some (SubsetList l) \<and> set l = {''hardware'', ''default''}"
    unfolding r by (elim exE conjE) simp
  with m keys show "\<exists>tr fm l.
      iosxr_main ?order ?run ?from_json (iosxr_FACT_SUBSETS ?scr) [] [''hardware'']
      = (tr, ExitFacts fm []) \<and>
      fm ''gather_subset'' = None \<and>
      fm ''ansible_net_gather_subset'' = Some (SubsetList l) \<and>
      set l = {''hardware'', ''default''}"
    by (intro exI [of _ tr] exI [of _ fm] exI [of _ l]) (simp only: simp_thms)
next
  let ?rpc = "\<lambda>name :: string. (Inr [''version'' \<mapsto> ''17.3''] :: error + (string \<rightharpoonup> string))"
  let ?order = "listed_order junos_names"
  note e = enumerates_junos_names [of ?rpc]
  have r: "resolve_subsets (junos_msg ?order (VALID_SUBSETS (junos_FACT_SUBSETS ?rpc)))
             (VALID_SUBSETS (junos_FACT_SUBSETS ?rpc)) [''hardware'']
           = Inr {''hardware'', ''default''}"
    unfolding junos_VALID_SUBSETS
    by (simp add: resolve_subsets_def startswith_def insert_commute)
  have "\<exists>n fm. junos_main ?order (junos_FACT_SUBSETS ?rpc) [] [''hardware'']
                  = (n, (ExitFacts fm [] :: (string, string) outcome))"
    unfolding junos_main_def r sum.case listed_order_examples
    by (simp add: junos_FACT_SUBSETS_def junos_populate_def)
  then obtain n fm where
    m: "junos_main ?order (junos_FACT_SUBSETS ?rpc) [] [''hardware'']
          = (n, (ExitFacts fm [] :: (string, string) outcome))"
    by blast
  note inst = facts_namespaced
    [of ?order _ _ _ "[]" "[''hardware'']" _ _ "[]" ?rpc n fm,
     THEN conjunct2, rule_format, OF conjI [OF e m]]
  from inst have "\<forall>key\<in>dom fm. startswith key ''ansible_net_''"
    by (rule conjunct1)
  moreover have "\<not> startswith ''gather_subset'' ''ansible_net_''"
    by (simp add: startswith_def)
  ultimately have keys: "fm ''gather_subset'' = None"
    by (cases "fm ''gather_subset''") auto
  from inst have "\<exists>rs l. resolve_subsets (junos_msg ?order (VALID_SUBSETS (junos_FACT_SUBSETS ?rpc)))
                          (VALID_SUBSETS (junos_FACT_SUBSETS ?rpc)) [''hardware''] = Inr rs \<and>
                  fm ''ansible_net_gather_subset'' = Some (SubsetList l) \<and>
                  set l = rs \<and> distinct l"
    by (rule conjunct2)
  then obtain l where
    "fm ''ansible_net_gather_subset'' = Some (SubsetList l) \<and> set l = {''hardware'', ''default''}"
    unfolding r by (elim exE conjE) simp
  with m keys show "\<exists>n fm l.
      junos_main ?order (junos_FACT_SUBSETS ?rpc) [] [''hardware'']
      = (n, (ExitFacts fm [] :: (string, string) outcome)) \<and>
      fm ''gather_subset'' = None \<and>
      fm ''ansible_net_gather_subset'' = Some (SubsetList l) \<and>
      set l = {''hardware'', ''default''}"
    by (intro exI [of _ n] exI [of _ fm] exI [of _ l]) (simp only: simp_thms)
qed
section \<open>Properties of decode\_os\<close>

subsection \<open>The dictionary of tokens\<close>

lemma split_on_not_Nil: "split_on sep s \<noteq> []"
  by (induction s) (auto split: list.splits)

lemma tokenize_lookup:
  "tokenize i desc tokens k =
     (if i \<le> k \<and> k < i + length desc then Some (split_ws (desc ! (k - i))) else tokens k)"
proof (induction desc arbitrary: i tokens)
  case Nil
  then show ?case by auto
next
  case (Cons s desc)
  have step: "tokenize i (s # desc) tokens k
                = tokenize (Suc i) desc (tokens(i \<mapsto> split_ws s)) k"
    by simp
  have IH: "tokenize (Suc i) desc (tokens(i \<mapsto> split_ws s)) k =
      (if Suc i \<le> k \<and> k < Suc i + length desc then Some (split_ws (desc ! (k - Suc i)))
       else (tokens(i \<mapsto> split_ws s)) k)"
    by (rule Cons.IH)
  show ?case
  proof (cases "k = i")
    case True
    then show ?thesis unfolding step IH by simp
  next
    case False
    then have "i \<le> k \<Longrightarrow> (s # desc) ! (k - i) = desc ! (k - Suc i)"
    proof -
      assume "i \<le> k"
      with False have "k - i = Suc (k - Suc i)" by arith
      then show ?thesis by simp
    qed
    with False show ?thesis unfolding step IH by auto
  qed
qed

lemma tokens_at_tokenize:
  "tokens_at (tokenize 0 desc Map.empty) i j =
     (if i < length desc then item (split_ws (desc ! i)) j else Inl KeyError)"
  by (simp add: tokens_at_def getitem_def and_then_def tokenize_lookup)

lemma isl_and_then: "isl (and_then r f) = (isl r \<or> isl (f (projr r)))"
  by (cases r) (simp_all add: and_then_def)

lemma isl_item: "isl (item xs j) = (length xs \<le> j)"
  by (auto simp: item_def)

lemma isl_tokens_at:
  "isl (tokens_at (tokenize 0 desc Map.empty) i j) =
     (length desc \<le> i \<or> length (split_ws (desc ! i)) \<le> j)"
  by (auto simp: tokens_at_tokenize isl_item)

text \<open>
  The version loop raises exactly when the first field in which \<open>version\<close> occurs has
  fewer than two words.
\<close>

lemma isl_find_version:
  "\<forall>j<length desc. tokens (i + j) = Some (split_ws (desc ! j)) \<Longrightarrow>
   isl (find_version i desc tokens v) =
     (case find search_version desc of None \<Rightarrow> False | Some s \<Rightarrow> length (split_ws s) < 2)"
proof (induction desc arbitrary: i)
  case Nil
  then show ?case by simp
next
  case (Cons s desc)
  show ?case
  proof (cases "search_version s")
    case True
    from Cons.prems have "tokens i = Some (split_ws s)" by force
    with True show ?thesis
      by (auto simp: tokens_at_def getitem_def and_then_def item_def)
  next
    case False
    have "\<forall>j<length desc. tokens (Suc i + j) = Some (split_ws (desc ! j))"
    proof (intro allI impI)
      fix j assume "j < length desc"
      then have "Suc j < length (s # desc)" by simp
      with Cons.prems have "tokens (i + Suc j) = Some (split_ws ((s # desc) ! Suc j))"
        by blast
      then show "tokens (Suc i + j) = Some (split_ws (desc ! j))" by simp
    qed
    from Cons.IH [OF this] False show ?thesis by simp
  qed
qed

lemma isl_find_version_tokenize:
  "isl (find_version 0 desc (tokenize 0 desc Map.empty) v) =
     (case find search_version desc of None \<Rightarrow> False | Some s \<Rightarrow> length (split_ws s) < 2)"
  by (rule isl_find_version) (simp add: tokenize_lookup)

lemma isl_decode_cisco:
  "isl (decode_cisco desc (tokenize 0 desc Map.empty)) =
     (length desc \<le> 0 \<or> length (split_ws (desc ! 0)) \<le> 2 \<or>
      (case find search_version desc of None \<Rightarrow> False | Some s \<Rightarrow> length (split_ws s) < 2))"
  by (auto simp: decode_cisco_def isl_and_then isl_tokens_at isl_find_version_tokenize)

lemma isl_decode_juniper:
  "isl (decode_juniper (tokenize 0 desc Map.empty)) =
     (length desc < 4 \<or> length (split_ws (desc ! 1)) < 2 \<or>
      length (split_ws (desc ! 2)) < 3 \<or> length (split_ws (desc ! 3)) < 4)"
  by (auto simp: decode_juniper_def isl_and_then isl_tokens_at)

lemma first_token:
  "tokens_at (tokenize 0 (split_on sep s) Map.empty) 0 0 =
     (case split_ws (split_on sep s ! 0) of [] \<Rightarrow> Inl IndexError | w # ws \<Rightarrow> Inr w)"
  using split_on_not_Nil [of sep s]
  by (auto simp: tokens_at_tokenize item_def split: list.splits)

subsection \<open>Fields and words\<close>

text \<open>
  What \<open>split(',')\<close> returns is the list of the fields, and what \<open>split()\<close> returns
  has as many entries as the string has words and begins with the first word.
\<close>

lemma split_on_unfold:
  "split_on sep s =
     takeWhile (\<lambda>c. c \<noteq> sep) s #
       (case dropWhile (\<lambda>c. c \<noteq> sep) s of [] \<Rightarrow> [] | c # rest \<Rightarrow> split_on sep rest)"
proof (induction s)
  case Nil
  then show ?case by simp
next
  case (Cons a s)
  show ?case
  proof (cases "a = sep")
    case True
    then show ?thesis by simp
  next
    case False
    then have "split_on sep (a # s) =
        (case split_on sep s of [] \<Rightarrow> [[a]] | fld # rest \<Rightarrow> (a # fld) # rest)"
      by simp
    also have "\<dots> = (a # takeWhile (\<lambda>c. c \<noteq> sep) s) #
        (case dropWhile (\<lambda>c. c \<noteq> sep) s of [] \<Rightarrow> [] | c # rest \<Rightarrow> split_on sep rest)"
      by (subst Cons.IH) simp
    finally show ?thesis using False by simp
  qed
qed

lemma length_split_on: "length (split_on CHR '','' s) = num_fields s"
  by (induction s) (auto simp: num_fields_def split: list.splits)

lemma split_on_nth:
  "i < length (split_on CHR '','' s) \<Longrightarrow> split_on CHR '','' s ! i = nth_field i s"
proof (induction i arbitrary: s)
  case 0
  show ?case by (subst split_on_unfold) simp
next
  case (Suc i)
  show ?case
  proof (cases "dropWhile (\<lambda>c. c \<noteq> CHR '','') s")
    case Nil
    have "split_on CHR '','' s = [takeWhile (\<lambda>c. c \<noteq> CHR '','') s]"
      by (subst split_on_unfold) (simp only: Nil list.case)
    with Suc.prems show ?thesis by simp
  next
    case (Cons c rest)
    have unfold: "split_on CHR '','' s
        = takeWhile (\<lambda>c. c \<noteq> CHR '','') s # split_on CHR '','' rest"
      by (subst split_on_unfold) (simp only: Cons list.case)
    with Suc.prems have "i < length (split_on CHR '','' rest)" by simp
    then have "split_on CHR '','' rest ! i = nth_field i rest" by (rule Suc.IH)
    with unfold Cons show ?thesis by simp
  qed
qed

lemma split_on_all_fields: "split_on CHR '','' s = all_fields s"
  by (rule nth_equalityI) (simp_all add: all_fields_def length_split_on split_on_nth)

lemma split_on_field:
  "i < num_fields s \<Longrightarrow> split_on CHR '','' s ! i = nth_field i s"
  by (simp add: split_on_nth length_split_on)

lemma split_ws_Nil_iff: "(split_ws s = []) = (\<forall>c\<in>set s. isspace c)"
  by (induction s) (auto split: list.splits)

lemma length_split_ws: "length (split_ws s) = num_words s"
proof (induction s rule: num_words.induct)
  case 1
  show ?case by simp
next
  case (2 c)
  show ?case by simp
next
  case (3 c d cs)
  show ?case
  proof (cases "isspace c \<or> isspace d")
    case True
    with 3 show ?thesis by auto
  next
    case False
    then have "split_ws (d # cs) \<noteq> []" unfolding split_ws_Nil_iff by simp
    then obtain w ws where w: "split_ws (d # cs) = w # ws"
      by (cases "split_ws (d # cs)") auto
    have step: "split_ws (c # d # cs) =
        (case split_ws (d # cs) of [] \<Rightarrow> [[c]] | word # ws \<Rightarrow> (c # word) # ws)"
      using False by simp
    have "length (split_ws (c # d # cs)) = length (split_ws (d # cs))"
      unfolding step w by simp
    also have "\<dots> = num_words (d # cs)" by (rule 3)
    also have "\<dots> = num_words (c # d # cs)" using False by simp
    finally show ?thesis .
  qed
qed

lemma hd_split_ws:
  "split_ws s \<noteq> [] \<Longrightarrow>
   hd (split_ws s) = takeWhile (\<lambda>c. \<not> isspace c) (dropWhile isspace s)"
proof (induction s)
  case Nil
  then show ?case by simp
next
  case (Cons c cs)
  show ?case
  proof (cases "isspace c")
    case True
    with Cons show ?thesis by simp
  next
    case notspace: False
    show ?thesis
    proof (cases "cs = [] \<or> isspace (hd cs)")
      case True
      with notspace show ?thesis by (cases cs) auto
    next
      case False
      then obtain d ds where cs: "cs = d # ds" and d: "\<not> isspace d"
        by (cases cs) auto
      then have ne: "split_ws cs \<noteq> []" unfolding split_ws_Nil_iff by simp
      then have "hd (split_ws cs) = takeWhile (\<lambda>c. \<not> isspace c) (dropWhile isspace cs)"
        by (rule Cons.IH)
      with cs d have "hd (split_ws cs) = takeWhile (\<lambda>c. \<not> isspace c) cs" by simp
      with ne notspace False show ?thesis
        by (cases "split_ws cs") auto
    qed
  qed
qed

text \<open>The words of field 0, as the code computes them.\<close>

lemma first_field_words:
  "length (split_ws (split_on CHR '','' s ! 0)) = num_words (nth_field 0 s)"
  "1 \<le> num_words (nth_field 0 s) \<Longrightarrow>
     split_ws (split_on CHR '','' s ! 0) = first_word s # tl (split_ws (split_on CHR '','' s ! 0))"
proof -
  have f: "split_on CHR '','' s ! 0 = nth_field 0 s"
    by (rule split_on_field) (simp add: num_fields_def)
  show "length (split_ws (split_on CHR '','' s ! 0)) = num_words (nth_field 0 s)"
    by (simp only: f length_split_ws)
  assume "1 \<le> num_words (nth_field 0 s)"
  then have ne: "split_ws (nth_field 0 s) \<noteq> []"
    using length_split_ws [of "nth_field 0 s"] by auto
  then have "hd (split_ws (nth_field 0 s)) = first_word s"
    unfolding first_word_def by (rule hd_split_ws)
  with ne show "split_ws (split_on CHR '','' s ! 0)
                  = first_word s # tl (split_ws (split_on CHR '','' s ! 0))"
    unfolding f by (cases "split_ws (nth_field 0 s)") auto
qed

text \<open>The two branches, in terms of fields and words.\<close>

lemma isl_decode_cisco_fields:
  "isl (decode_cisco (split_on CHR '','' s) (tokenize 0 (split_on CHR '','' s) Map.empty)) =
     (num_words (nth_field 0 s) \<le> 2 \<or>
      (case find search_version (all_fields s) of
         None \<Rightarrow> False | Some f \<Rightarrow> num_words f < 2))"
proof -
  have len: "\<not> length (split_on CHR '','' s) \<le> 0"
    using split_on_not_Nil [of "CHR '',''" s] by simp
  have ver: "(case find search_version (split_on CHR '','' s) of
                None \<Rightarrow> False | Some f \<Rightarrow> length (split_ws f) < 2)
           = (case find search_version (all_fields s) of
                None \<Rightarrow> False | Some f \<Rightarrow> num_words f < 2)"
    by (simp only: split_on_all_fields length_split_ws cong: option.case_cong)
  show ?thesis
    unfolding isl_decode_cisco ver first_field_words(1) using len by blast
qed

lemma isl_decode_juniper_fields:
  "isl (decode_juniper (tokenize 0 (split_on CHR '','' s) Map.empty)) =
     (num_fields s < 4 \<or> num_words (nth_field 1 s) < 2 \<or>
      num_words (nth_field 2 s) < 3 \<or> num_words (nth_field 3 s) < 4)"
proof (cases "num_fields s < 4")
  case True
  then show ?thesis by (simp add: isl_decode_juniper length_split_on)
next
  case False
  then have "split_on CHR '','' s ! 1 = nth_field 1 s"
    and "split_on CHR '','' s ! 2 = nth_field 2 s"
    and "split_on CHR '','' s ! 3 = nth_field 3 s"
    by (simp_all add: split_on_field)
  then show ?thesis
    by (simp only: isl_decode_juniper length_split_on length_split_ws)
qed

subsection \<open>The claims about decode\_os\<close>

text \<open>
  C9. When the first comma-separated field of the description contains at least one
  whitespace-separated word and its first word, lowercased, is neither cisco nor juniper,
  decode\_os returns a dictionary with exactly the five keys ansible\_os\_vendor,
  ansible\_os\_model, ansible\_os\_type, ansible\_os\_version and ansible\_os\_buildtime;
  the vendor is that first word in its original case and the other four values are the
  string Unknown.
\<close>

theorem decode_os_other_vendor:
  assumes "1 \<le> num_words (nth_field 0 sysdescr)"
    and "lower (first_word sysdescr) \<noteq> ''cisco''"
    and "lower (first_word sysdescr) \<noteq> ''juniper''"
  shows "\<exists>r. decode_os sysdescr = Inr r \<and>
           dom r = {''ansible_os_vendor'', ''ansible_os_model'', ''ansible_os_type'',
                    ''ansible_os_version'', ''ansible_os_buildtime''} \<and>
           r ''ansible_os_vendor'' = Some (first_word sysdescr) \<and>
           r ''ansible_os_model'' = Some ''Unknown'' \<and>
           r ''ansible_os_type'' = Some ''Unknown'' \<and>
           r ''ansible_os_version'' = Some ''Unknown'' \<and>
           r ''ansible_os_buildtime'' = Some ''Unknown''"
proof -
  obtain ws where "split_ws (split_on CHR '','' sysdescr ! 0) = first_word sysdescr # ws"
    using first_field_words(2) [OF assms(1)] by blast
  then have "tokens_at (tokenize 0 (split_on CHR '','' sysdescr) Map.empty) 0 0
               = Inr (first_word sysdescr)"
    by (simp add: first_token)
  then have "decode_os sysdescr =
      Inr [''ansible_os_vendor'' \<mapsto> first_word sysdescr,
           ''ansible_os_model'' \<mapsto> ''Unknown'',
           ''ansible_os_type'' \<mapsto> ''Unknown'',
           ''ansible_os_version'' \<mapsto> ''Unknown'',
           ''ansible_os_buildtime'' \<mapsto> ''Unknown'']"
    using assms(2,3) by (simp add: decode_os_def and_then_def)
  then show ?thesis by auto
qed

theorem decode_os_other_vendor_witness:
  "(\<exists>r. decode_os ''Arista Networks EOS, version 4'' = Inr r \<and>
       dom r = {''ansible_os_vendor'', ''ansible_os_model'', ''ansible_os_type'',
                ''ansible_os_version'', ''ansible_os_buildtime''} \<and>
       r ''ansible_os_vendor'' = Some ''Arista'' \<and>
       r ''ansible_os_model'' = Some ''Unknown'' \<and>
       r ''ansible_os_type'' = Some ''Unknown'' \<and>
       r ''ansible_os_version'' = Some ''Unknown'' \<and>
       r ''ansible_os_buildtime'' = Some ''Unknown'')
   \<and> (\<exists>r. decode_os [CHR ''H'', CHR ''P'', CHR 0x1F, CHR ''X'', CHR '','', CHR ''Y''] = Inr r \<and>
       r ''ansible_os_vendor'' = Some ''HP'')"
proof
  have w: "1 \<le> num_words (nth_field 0 ''Arista Networks EOS, version 4'')"
    by (simp add: isspace_def)
  have f: "first_word ''Arista Networks EOS, version 4'' = ''Arista''"
    by (simp add: first_word_def isspace_def)
  have c: "lower (first_word ''Arista Networks EOS, version 4'') \<noteq> ''cisco''"
    and j: "lower (first_word ''Arista Networks EOS, version 4'') \<noteq> ''juniper''"
    unfolding f
    by (simp_all add: lower_def lower_char_def upper_letters_def lower_letters_def)
  from decode_os_other_vendor [OF w c j]
  show "\<exists>r. decode_os ''Arista Networks EOS, version 4'' = Inr r \<and>
       dom r = {''ansible_os_vendor'', ''ansible_os_model'', ''ansible_os_type'',
                ''ansible_os_version'', ''ansible_os_buildtime''} \<and>
       r ''ansible_os_vendor'' = Some ''Arista'' \<and>
       r ''ansible_os_model'' = Some ''Unknown'' \<and>
       r ''ansible_os_type'' = Some ''Unknown'' \<and>
       r ''ansible_os_version'' = Some ''Unknown'' \<and>
       r ''ansible_os_buildtime'' = Some ''Unknown''"
    unfolding f .
next
  let ?s = "[CHR ''H'', CHR ''P'', CHR 0x1F, CHR ''X'', CHR '','', CHR ''Y'']"
  have w: "1 \<le> num_words (nth_field 0 ?s)"
    by (simp add: isspace_def)
  have f: "first_word ?s = ''HP''"
    by (simp add: first_word_def isspace_def)
  have c: "lower (first_word ?s) \<noteq> ''cisco''"
    and j: "lower (first_word ?s) \<noteq> ''juniper''"
    unfolding f
    by (simp_all add: lower_def lower_char_def upper_letters_def lower_letters_def)
  from decode_os_other_vendor [OF w c j]
  show "\<exists>r. decode_os ?s = Inr r \<and> r ''ansible_os_vendor'' = Some ''HP''"
    unfolding f by blast
qed

text \<open>
  C10, as the claim states it, fails twice. The description
  \<open>cisco a b, version 1, version\<close> has a field in which version occurs with a single
  word, and decode\_os returns on it, because the loop stops at the first such field.
  The description \<open>Juniper Networks\<close> raises KeyError, not IndexError, because
  \<open>tokens\<close> is a dictionary and has no key 2.
\<close>

theorem decode_os_claim_counterexample:
  "\<not> isl (decode_os ''cisco a b, version 1, version'')
   \<and> search_version (nth_field 2 ''cisco a b, version 1, version'')
   \<and> num_words (nth_field 2 ''cisco a b, version 1, version'') = 1
   \<and> decode_os ''Juniper Networks'' = Inl KeyError
   \<and> decode_os ''Juniper Networks'' \<noteq> Inl IndexError"
  by (simp add: decode_os_def decode_cisco_def decode_juniper_def tokens_at_def getitem_def
      item_def and_then_def lower_def lower_char_def upper_letters_def lower_letters_def
      isspace_def search_version_def startswith_def numeral_2_eq_2)

text \<open>
  C10, amended. decode\_os is not total: it returns exactly when the first field has a
  word (so is not empty) and, when the first word is cisco (letter case ignored), the
  first field has at least three words and the first field in which version occurs, if
  any, has at least two, and, when the first word is juniper, there are at least four
  fields and fields 1, 2 and 3 have at least 2, 3 and 4 words. Outside these conditions
  it raises: IndexError on the description \<open>cisco IOS\<close> and on the empty
  description, KeyError on the single-field description \<open>Juniper Networks\<close>.
\<close>

theorem decode_os_returns_iff:
  "(\<not> isl (decode_os sysdescr)) = decode_os_returns sysdescr
   \<and> (\<not> isl (decode_os sysdescr) \<longrightarrow> nth_field 0 sysdescr \<noteq> [])
   \<and> \<not> decode_os_returns ''cisco IOS'' \<and> decode_os ''cisco IOS'' = Inl IndexError
   \<and> \<not> decode_os_returns [] \<and> decode_os [] = Inl IndexError
   \<and> \<not> decode_os_returns ''Juniper Networks''
   \<and> decode_os ''Juniper Networks'' = Inl KeyError"
proof -
  let ?desc = "split_on CHR '','' sysdescr"
  have iff: "(\<not> isl (decode_os sysdescr)) = decode_os_returns sysdescr"
  proof (cases "1 \<le> num_words (nth_field 0 sysdescr)")
    case False
    with first_field_words(1) [of sysdescr]
    have "length (split_ws (?desc ! 0)) = 0" by linarith
    then have "split_ws (?desc ! 0) = []" by simp
    with False show ?thesis
      by (simp add: decode_os_def decode_os_returns_def first_token and_then_def)
  next
    case True
    let ?w = "first_word sysdescr"
    from first_field_words(2) [OF True]
    obtain ws where words: "split_ws (?desc ! 0) = ?w # ws" by blast
    then have first: "tokens_at (tokenize 0 ?desc Map.empty) 0 0 = Inr ?w"
      by (simp add: first_token)
    consider (cisco) "lower ?w = ''cisco''"
      | (juniper) "lower ?w \<noteq> ''cisco''" "lower ?w = ''juniper''"
      | (other) "lower ?w \<noteq> ''cisco''" "lower ?w \<noteq> ''juniper''"
      by blast
    then show ?thesis
    proof cases
      case cisco
      then have "isl (decode_os sysdescr) = isl (decode_cisco ?desc (tokenize 0 ?desc Map.empty))"
        by (simp add: decode_os_def Let_def first and_then_def split: sum.splits prod.splits)
      also have "\<dots> = (num_words (nth_field 0 sysdescr) \<le> 2 \<or>
          (case find search_version (all_fields sysdescr) of
             None \<Rightarrow> False | Some s \<Rightarrow> num_words s < 2))"
        by (rule isl_decode_cisco_fields)
      finally show ?thesis using cisco True
        by (auto simp: decode_os_returns_def split: option.splits)
    next
      case juniper
      then have "isl (decode_os sysdescr) = isl (decode_juniper (tokenize 0 ?desc Map.empty))"
        by (simp add: decode_os_def Let_def first and_then_def split: sum.splits prod.splits)
      also have "\<dots> = (num_fields sysdescr < 4 \<or> num_words (nth_field 1 sysdescr) < 2 \<or>
          num_words (nth_field 2 sysdescr) < 3 \<or> num_words (nth_field 3 sysdescr) < 4)"
        by (rule isl_decode_juniper_fields)
      finally show ?thesis using juniper True
        by (auto simp: decode_os_returns_def)
    next
      case other
      then have "\<not> isl (decode_os sysdescr)"
        by (simp add: decode_os_def Let_def first and_then_def)
      with other True show ?thesis
        by (simp add: decode_os_returns_def)
    qed
  qed
  have nonempty: "\<not> isl (decode_os sysdescr) \<longrightarrow> nth_field 0 sysdescr \<noteq> []"
  proof
    assume "\<not> isl (decode_os sysdescr)"
    with iff have "1 \<le> num_words (nth_field 0 sysdescr)"
      by (simp add: decode_os_returns_def)
    then show "nth_field 0 sysdescr \<noteq> []" by auto
  qed
  have cisco: "decode_os ''cisco IOS'' = Inl IndexError"
    by (simp add: decode_os_def decode_cisco_def tokens_at_def getitem_def
        item_def and_then_def lower_def lower_char_def upper_letters_def lower_letters_def
        isspace_def)
  have empty: "decode_os [] = Inl IndexError"
    by (simp add: decode_os_def tokens_at_def getitem_def item_def and_then_def)
  have juniper: "decode_os ''Juniper Networks'' = Inl KeyError"
    by (simp add: decode_os_def decode_juniper_def tokens_at_def getitem_def
        item_def and_then_def lower_def lower_char_def upper_letters_def lower_letters_def
        isspace_def)
  have nc: "\<not> decode_os_returns ''cisco IOS''"
    by (simp add: decode_os_returns_def first_word_def isspace_def lower_def lower_char_def
        upper_letters_def lower_letters_def)
  have ne: "\<not> decode_os_returns []"
    by (simp add: decode_os_returns_def)
  have nj: "\<not> decode_os_returns ''Juniper Networks''"
    by (simp add: decode_os_returns_def first_word_def isspace_def lower_def lower_char_def
        upper_letters_def lower_letters_def num_fields_def)
  from iff nonempty nc cisco ne empty nj juniper show ?thesis by blast
qed

theorem decode_os_returns_iff_witness:
  "lower (first_word ''Cisco IOS Software, Version 15.2'') = ''cisco''
   \<and> lower (first_word ''Juniper Networks, Inc. mx480 router, kernel JUNOS 14.2, Build date: 2016-10-31 20:42:46 UTC'') = ''juniper''
   \<and> \<not> isl (decode_os ''Cisco IOS Software, Version 15.2'')
   \<and> \<not> isl (decode_os ''Juniper Networks, Inc. mx480 router, kernel JUNOS 14.2, Build date: 2016-10-31 20:42:46 UTC'')
   \<and> nth_field 0 ''Cisco IOS Software, Version 15.2'' \<noteq> []"
proof -
  have c: "lower (first_word ''Cisco IOS Software, Version 15.2'') = ''cisco''"
    by (simp add: first_word_def isspace_def lower_def lower_char_def upper_letters_def
        lower_letters_def)
  have j: "lower (first_word ''Juniper Networks, Inc. mx480 router, kernel JUNOS 14.2, Build date: 2016-10-31 20:42:46 UTC'') = ''juniper''"
    by (simp add: first_word_def isspace_def lower_def lower_char_def upper_letters_def
        lower_letters_def)
  have rc: "decode_os_returns ''Cisco IOS Software, Version 15.2''"
    unfolding decode_os_returns_def c
    by (simp add: all_fields_def num_fields_def isspace_def search_version_def lower_def
        lower_char_def upper_letters_def lower_letters_def startswith_def)
  have rj: "decode_os_returns ''Juniper Networks, Inc. mx480 router, kernel JUNOS 14.2, Build date: 2016-10-31 20:42:46 UTC''"
    unfolding decode_os_returns_def j
    by (simp add: num_fields_def isspace_def numeral_2_eq_2 numeral_3_eq_3)
  show ?thesis
    using decode_os_returns_iff [of "''Cisco IOS Software, Version 15.2''"]
      decode_os_returns_iff [of "''Juniper Networks, Inc. mx480 router, kernel JUNOS 14.2, Build date: 2016-10-31 20:42:46 UTC''"]
      c j rc rj
    by simp
qed
end
